theory Spec2Isabelle
  imports Main "HOL-Library.Multiset"
begin

section \<open>The promise pool of \<^verbatim>\<open>packages/promises/src/utils.ts\<close>\<close>

text \<open>
  The class \<^verbatim>\<open>PromisePool\<close> is embedded as a record of its fields and one function per
  method, each taking the pool and returning the updated pool.

  JavaScript objects compared by reference (the promises returned by the generators, the
  listener callbacks) are natural numbers standing for their identity. A task's value and
  a failure's cause are \<^verbatim>\<open>any\<close> in the source: the pool record is polymorphic in their
  type \<open>'v\<close>, and the one method that looks at such a value, \<^verbatim>\<open>promiseRejected\<close>, takes a
  \<open>js_value\<close>.

  The concurrency is a JavaScript \<^verbatim>\<open>number\<close>; the model covers the integers and
  \<^verbatim>\<open>Number.POSITIVE_INFINITY\<close>. The field \<^verbatim>\<open>size\<close> is \<open>pool_size\<close> here and the
  option \<^verbatim>\<open>name\<close> is \<open>opt_name\<close>; the other names are the source's.

  The generators, the listener callbacks and the \<^verbatim>\<open>verbose\<close> sink are caller code. The
  embedding has two layers. In this section every generator and every listener returns at
  once: a generator returns its promise, a listener returns, and neither throws nor calls a
  method of the pool; a generator is then identified with the promise that calling it
  returns. The section on caller code that runs inside the pool gives each generator and
  each listener code of its own, which may call the pool and may throw, and runs it where
  the source calls it; lemma \<open>execR_at_once\<close> shows that the two layers agree when the
  caller code returns at once. Both layers record each callback invocation in the trace
  \<open>calls\<close> and each call of \<^verbatim>\<open>#emit\<close> in the trace \<open>emitted\<close>.

  The \<^verbatim>\<open>verbose\<close> lines only write to the sink: they read and change no field of the
  pool and are left out. Of the \<^verbatim>\<open>console.error\<close> line the model keeps the evaluation of
  its argument, which can throw.
\<close>

subsection \<open>Data\<close>

type_synonym promise_ref = nat
type_synonym callback = nat

datatype number = Num int | Infinity

datatype POOL_EVENT_TYPE = EvStart | EvFull | EvNext | EvClose | EvAvailable

datatype error = Error string | TypeError string

text \<open>
  A JavaScript value, as far as the pool looks at one. The failure branch of accumulate
  mode evaluates \<^verbatim>\<open>error instanceof Error ? error.message : JSON.stringify(error)\<close>:
  \<open>JsError\<close> is an \<^verbatim>\<open>Error\<close> instance with its message, \<open>JsNumber\<close> a number (it
  stands for the values \<^verbatim>\<open>JSON.stringify\<close> serialises), \<open>JsCyclic\<close> an object with a
  cyclic reference (it stands for the values \<^verbatim>\<open>JSON.stringify\<close> throws a
  \<^verbatim>\<open>TypeError\<close> on, a \<^verbatim>\<open>BigInt\<close> among them).
\<close>

datatype js_value = JsNumber nat | JsError string | JsCyclic nat

text \<open>A slot of the \<^verbatim>\<open>result\<close> array: a task's value, or the \<^verbatim>\<open>PoolErrorImpl\<close>
  (message, \<^verbatim>\<open>catched\<close>) written for a failed task.\<close>

datatype 'v slot = Value 'v | PoolErrorImpl string 'v

text \<open>A JavaScript array may have holes; \<open>None\<close> is a hole.\<close>

type_synonym 'v js_array = "'v slot option list"

text \<open>The state of the promise \<^verbatim>\<open>#promise\<close> that \<^verbatim>\<open>close()\<close> returns.\<close>

datatype 'v settlement = Pending | Fulfilled "'v js_array" | Rejected 'v

record QueuedPromise =
  generator :: promise_ref
  index :: nat

record PoolOptions =
  concurrency :: number
  opt_name :: "string option"
  rejectOnError :: "bool option"
  autoStart :: "bool option"

text \<open>\<^verbatim>\<open>Map<() => void, boolean>\<close>: insertion-ordered, one entry per key.\<close>

type_synonym listener_map = "(callback \<times> bool) list"

record 'v PromisePool =
  pool_size :: number
  name :: string
  options :: "PoolOptions option"
  currentIndex :: nat
  running :: "promise_ref list"
  enqueued :: "QueuedPromise list"
  result :: "'v js_array"
  isStarted :: bool
  isClosed :: bool
  isResolved :: bool
  promise :: "'v settlement"
  listeners :: "POOL_EVENT_TYPE \<Rightarrow> listener_map option"
  continuations :: "(promise_ref \<times> nat) list"
  emitted :: "POOL_EVENT_TYPE list"
  calls :: "(POOL_EVENT_TYPE \<times> callback) list"

text \<open>
  \<open>continuations\<close> is the runtime's part of the state: the pairs (promise, index) for
  which \<^verbatim>\<open>runNext\<close> has registered the \<^verbatim>\<open>then\<close>/\<^verbatim>\<open>catch\<close> continuation and the
  continuation has not run yet.
\<close>

definition DEFAULT_CONCURRENCY :: number where
  "DEFAULT_CONCURRENCY = Num 10"

definition DEFAULT_NAME :: string where
  "DEFAULT_NAME = ''pool''"

subsection \<open>JavaScript primitives\<close>

text \<open>\<^verbatim>\<open>length < size\<close>, \<^verbatim>\<open>length >= size\<close> and \<^verbatim>\<open>length == size - 1\<close>.\<close>

fun length_lt :: "nat \<Rightarrow> number \<Rightarrow> bool" where
  "length_lt n (Num c) = (int n < c)"
| "length_lt n Infinity = True"

fun length_ge :: "nat \<Rightarrow> number \<Rightarrow> bool" where
  "length_ge n (Num c) = (c \<le> int n)"
| "length_ge n Infinity = False"

fun length_eq_pred :: "nat \<Rightarrow> number \<Rightarrow> bool" where
  "length_eq_pred n (Num c) = (int n = c - 1)"
| "length_eq_pred n Infinity = False"

text \<open>\<^verbatim>\<open>x || d\<close> on a number: 0 is falsy.\<close>

fun number_or :: "number option \<Rightarrow> number \<Rightarrow> number" where
  "number_or None d = d"
| "number_or (Some (Num c)) d = (if c = 0 then d else Num c)"
| "number_or (Some Infinity) d = Infinity"

text \<open>\<^verbatim>\<open>x || d\<close> on a string: the empty string is falsy.\<close>

fun string_or :: "string option \<Rightarrow> string \<Rightarrow> string" where
  "string_or None d = d"
| "string_or (Some s) d = (if s = [] then d else s)"

text \<open>\<^verbatim>\<open>Array.prototype.indexOf\<close>: the first position of the element, \<open>None\<close> for -1.\<close>

fun indexOf :: "'a list \<Rightarrow> 'a \<Rightarrow> nat option" where
  "indexOf [] p = None"
| "indexOf (x # xs) p = (if x = p then Some 0 else map_option Suc (indexOf xs p))"

text \<open>\<^verbatim>\<open>splice(k, 1)\<close>.\<close>

definition splice1 :: "'a list \<Rightarrow> nat \<Rightarrow> 'a list" where
  "splice1 xs k = take k xs @ drop (Suc k) xs"

text \<open>\<^verbatim>\<open>arr[i] = v\<close>: an index past the end extends the array, leaving holes.\<close>

definition array_set :: "'v js_array \<Rightarrow> nat \<Rightarrow> 'v slot \<Rightarrow> 'v js_array" where
  "array_set xs i v =
     (if i < length xs then xs[i := Some v]
      else xs @ replicate (i - length xs) None @ [Some v])"

text \<open>\<^verbatim>\<open>Map.set\<close> keeps the position of a key already present and appends a new key;
  \<^verbatim>\<open>Map.delete\<close>.\<close>

fun map_set :: "listener_map \<Rightarrow> callback \<Rightarrow> bool \<Rightarrow> listener_map" where
  "map_set [] cb v = [(cb, v)]"
| "map_set ((k, w) # m) cb v = (if k = cb then (k, v) # m else (k, w) # map_set m cb v)"

definition map_delete :: "listener_map \<Rightarrow> callback \<Rightarrow> listener_map" where
  "map_delete m cb = filter (\<lambda>kv. fst kv \<noteq> cb) m"

text \<open>The decimal digits of an index, as the template literal prints them.\<close>

function show_nat :: "nat \<Rightarrow> string" where
  "show_nat n =
     (if n < 10 then [''0123456789'' ! n]
      else show_nat (n div 10) @ [''0123456789'' ! (n mod 10)])"
  by pat_completeness auto
termination
  by (relation "measure id") auto

declare show_nat.simps [simp del]

text \<open>\<^verbatim>\<open>JSON.stringify\<close>, and the argument of the \<^verbatim>\<open>console.error\<close> call of
  \<^verbatim>\<open>promiseRejected\<close>.\<close>

fun JSON_stringify :: "js_value \<Rightarrow> error + string" where
  "JSON_stringify (JsNumber n) = Inr (show_nat n)"
| "JSON_stringify (JsError msg) = Inr ''{}''"
| "JSON_stringify (JsCyclic k) = Inl (TypeError ''Converting circular structure to JSON'')"

fun console_error_argument :: "js_value \<Rightarrow> error + string" where
  "console_error_argument (JsError msg) = Inr msg"
| "console_error_argument err = JSON_stringify err"

text \<open>The message of the error stored for a failed task:
  \<^verbatim>\<open>`Promise ${index} was rejected`\<close>.\<close>

definition rejection_message :: "nat \<Rightarrow> string" where
  "rejection_message idx = ''Promise '' @ show_nat idx @ '' was rejected''"

subsection \<open>The event bus\<close>

text \<open>
  \<^verbatim>\<open>for (const [cb, once] of this.#listeners[type]!) { cb(); if (once) ...delete(cb); }\<close>
  The iteration visits the entries present when it starts; deleting the entry just visited
  does not disturb it. The call \<^verbatim>\<open>cb()\<close> returns at once here.
\<close>

fun emit_loop :: "POOL_EVENT_TYPE \<Rightarrow> listener_map \<Rightarrow> 'v PromisePool \<Rightarrow> 'v PromisePool" where
  "emit_loop t [] s = s"
| "emit_loop t ((cb, once) # es) s =
     emit_loop t es
       (let s1 = s\<lparr>calls := calls s @ [(t, cb)]\<rparr>
        in if once
           then s1\<lparr>listeners := (listeners s1)(t := map_option (\<lambda>m. map_delete m cb) (listeners s1 t))\<rparr>
           else s1)"

definition emit :: "POOL_EVENT_TYPE \<Rightarrow> 'v PromisePool \<Rightarrow> 'v PromisePool" where
  "emit t s =
     (let s0 = s\<lparr>emitted := emitted s @ [t]\<rparr>
      in case listeners s0 t of
           None \<Rightarrow> s0
         | Some m \<Rightarrow> emit_loop t m s0)"

text \<open>\<^verbatim>\<open>(this.#listeners[type] ??= new Map()).set(cb, flag)\<close>\<close>

definition listeners_set :: "POOL_EVENT_TYPE \<Rightarrow> callback \<Rightarrow> bool \<Rightarrow> 'v PromisePool \<Rightarrow> 'v PromisePool" where
  "listeners_set t cb flag s =
     s\<lparr>listeners := (listeners s)(t \<mapsto> map_set (case listeners s t of None \<Rightarrow> [] | Some m \<Rightarrow> m) cb flag)\<rparr>"

definition on :: "POOL_EVENT_TYPE \<Rightarrow> callback \<Rightarrow> 'v PromisePool \<Rightarrow> 'v PromisePool" where
  "on t cb s = listeners_set t cb False s"

definition once :: "POOL_EVENT_TYPE \<Rightarrow> callback \<Rightarrow> 'v PromisePool \<Rightarrow> 'v PromisePool" where
  "once t cb s = listeners_set t cb True s"

subsection \<open>The scheduler\<close>

text \<open>The constructor. It has no failing path.\<close>

definition new_PromisePool :: "PoolOptions option \<Rightarrow> 'v PromisePool" where
  "new_PromisePool opts =
     \<lparr> pool_size = number_or (map_option concurrency opts) DEFAULT_CONCURRENCY,
       name = string_or (Option.bind opts opt_name) DEFAULT_NAME,
       options = opts,
       currentIndex = 0,
       running = [],
       enqueued = [],
       result = [],
       isStarted = False,
       isClosed = False,
       isResolved = False,
       promise = Pending,
       listeners = (\<lambda>t. None),
       continuations = [],
       emitted = [],
       calls = [] \<rparr>"

text \<open>\<^verbatim>\<open>this.options?.rejectOnError\<close> as a condition, and \<^verbatim>\<open>this.options?.autoStart ?? true\<close>.\<close>

definition opt_rejectOnError :: "'v PromisePool \<Rightarrow> bool" where
  "opt_rejectOnError s = (case Option.bind (options s) rejectOnError of None \<Rightarrow> False | Some b \<Rightarrow> b)"

definition opt_autoStart :: "'v PromisePool \<Rightarrow> bool" where
  "opt_autoStart s = (case Option.bind (options s) autoStart of None \<Rightarrow> True | Some b \<Rightarrow> b)"

text \<open>Settling \<^verbatim>\<open>#promise\<close>: a promise settles once, later calls do nothing.\<close>

definition resolve_promise :: "'v js_array \<Rightarrow> 'v PromisePool \<Rightarrow> 'v PromisePool" where
  "resolve_promise r s = (if promise s = Pending then s\<lparr>promise := Fulfilled r\<rparr> else s)"

definition reject_promise :: "'v \<Rightarrow> 'v PromisePool \<Rightarrow> 'v PromisePool" where
  "reject_promise e s = (if promise s = Pending then s\<lparr>promise := Rejected e\<rparr> else s)"

text \<open>
  The \<^verbatim>\<open>while\<close> loop of \<^verbatim>\<open>runNext\<close>: shift the queue, call the generator, register the
  continuation carrying the index, push the promise; \<open>added\<close> counts the launches. The call
  of the generator returns at once here, so the three updates make one step.
\<close>

function launch_loop :: "'v PromisePool \<Rightarrow> nat \<Rightarrow> 'v PromisePool \<times> nat" where
  "launch_loop s added =
     (if length_lt (length (running s)) (pool_size s) \<and> enqueued s \<noteq> []
      then (case enqueued s of
              [] \<Rightarrow> (s, added)
            | nextQueuedPromise # rest \<Rightarrow>
                launch_loop
                  (s\<lparr>enqueued := rest,
                     continuations := continuations s @ [(generator nextQueuedPromise, index nextQueuedPromise)],
                     running := running s @ [generator nextQueuedPromise]\<rparr>)
                  (added + 1))
      else (s, added))"
  by pat_completeness auto
termination
  by (relation "measure (\<lambda>(s, added). length (enqueued s))") auto

declare launch_loop.simps [simp del]

definition runNext :: "'v PromisePool \<Rightarrow> 'v PromisePool" where
  "runNext s =
     (if isStarted s then
        (if enqueued s \<noteq> [] then
           (case launch_loop s 0 of (s1, added) \<Rightarrow>
              (if length_ge (length (running s1)) (pool_size s1)
               then (if added \<noteq> 0 then emit EvFull s1 else s1)
               else s1))
         else if running s = [] then
           (if isClosed s
            then resolve_promise (result s) (s\<lparr>isResolved := True\<rparr>)
            else s)
         else
           (if length_eq_pred (length (running s)) (pool_size s)
            then emit EvAvailable s
            else s))
      else s)"

definition start :: "'v PromisePool \<Rightarrow> 'v PromisePool" where
  "start s =
     runNext (if \<not> isStarted s then (emit EvStart s)\<lparr>isStarted := True\<rparr> else s)"

text \<open>\<^verbatim>\<open>enqueue\<close> throws before it changes anything; \<open>Inl\<close> carries the error and the pool
  as it is at the throw.\<close>

definition enqueue :: "promise_ref \<Rightarrow> 'v PromisePool \<Rightarrow> (error \<times> 'v PromisePool) + 'v PromisePool" where
  "enqueue promiseGenerator s =
     (if isClosed s then Inl (Error (''['' @ name s @ ''] PromisePool already closed''), s)
      else if isResolved s then Inl (Error (''['' @ name s @ ''] PromisePool already performed''), s)
      else
        (let s1 = s\<lparr>enqueued := enqueued s @ [\<lparr>generator = promiseGenerator, index = currentIndex s\<rparr>],
                    currentIndex := currentIndex s + 1\<rparr>
         in if opt_autoStart s1 \<and> \<not> isStarted s1 then Inr (start s1)
            else if isStarted s1 then Inr (runNext s1)
            else Inr s1))"

definition promiseDone :: "promise_ref \<Rightarrow> 'v \<Rightarrow> nat \<Rightarrow> 'v PromisePool \<Rightarrow> 'v PromisePool" where
  "promiseDone p res idx s =
     (if isResolved s then s
      else case indexOf (running s) p of
             Some promiseIndex \<Rightarrow>
               runNext (emit EvNext
                 (s\<lparr>running := splice1 (running s) promiseIndex,
                    result := array_set (result s) idx (Value res)\<rparr>))
           | None \<Rightarrow> s)"

text \<open>
  In accumulate mode \<^verbatim>\<open>promiseRejected\<close> evaluates the argument of \<^verbatim>\<open>console.error\<close>
  before it emits \<^verbatim>\<open>next\<close> and calls \<^verbatim>\<open>runNext\<close>; when that throws, \<open>Inl\<close> carries the
  error and the pool as it is at the throw.
\<close>

definition promiseRejected ::
  "promise_ref \<Rightarrow> js_value \<Rightarrow> nat \<Rightarrow> js_value PromisePool
     \<Rightarrow> (error \<times> js_value PromisePool) + js_value PromisePool" where
  "promiseRejected p err idx s =
     (if isResolved s then Inr s
      else case indexOf (running s) p of
             Some promiseIndex \<Rightarrow>
               (let s1 = s\<lparr>running := splice1 (running s) promiseIndex,
                           result := array_set (result s) idx
                                       (PoolErrorImpl (rejection_message idx) err)\<rparr>
                in if opt_rejectOnError s1
                   then Inr (reject_promise err (s1\<lparr>isResolved := True\<rparr>))
                   else (case console_error_argument err of
                           Inl e \<Rightarrow> Inl (e, s1)
                         | Inr printed \<Rightarrow> Inr (runNext (emit EvNext s1))))
           | None \<Rightarrow> Inr s)"

definition close :: "'v PromisePool \<Rightarrow> 'v PromisePool" where
  "close s = start (s\<lparr>isClosed := True\<rparr>)"

text \<open>\<^verbatim>\<open>pool(concurrency = 10, options)\<close>: the default parameter replaces an absent
  concurrency; the options are spread first, then \<^verbatim>\<open>concurrency\<close>.\<close>

definition pool :: "number option \<Rightarrow> PoolOptions option \<Rightarrow> 'v PromisePool" where
  "pool conc opts =
     new_PromisePool
       (Some \<lparr> concurrency = (case conc of None \<Rightarrow> Num 10 | Some c \<Rightarrow> c),
               opt_name = Option.bind opts opt_name,
               rejectOnError = Option.bind opts rejectOnError,
               autoStart = Option.bind opts autoStart \<rparr>)"

subsection \<open>Runs of a pool\<close>

text \<open>
  What can happen to a pool: a call of a public method, or a launched promise settling,
  which runs the continuation registered for it with the index it carries. A continuation
  runs once; an event for a continuation that is not registered cannot happen. An
  exception thrown by \<^verbatim>\<open>enqueue\<close> goes to the caller, one thrown by a continuation to the
  runtime; the pool stays as it is at the throw.
\<close>

datatype 'v action =
    CallStart
  | CallEnqueue promise_ref
  | CallClose
  | CallOn POOL_EVENT_TYPE callback
  | CallOnce POOL_EVENT_TYPE callback
  | Fulfils promise_ref nat 'v
  | Rejects promise_ref nat 'v

fun step :: "js_value action \<Rightarrow> js_value PromisePool \<Rightarrow> js_value PromisePool option" where
  "step CallStart s = Some (start s)"
| "step (CallEnqueue g) s = Some (case enqueue g s of Inl (e, s') \<Rightarrow> s' | Inr s' \<Rightarrow> s')"
| "step CallClose s = Some (close s)"
| "step (CallOn t cb) s = Some (on t cb s)"
| "step (CallOnce t cb) s = Some (once t cb s)"
| "step (Fulfils p i v) s =
     (if (p, i) \<in> set (continuations s)
      then Some (promiseDone p v i (s\<lparr>continuations := remove1 (p, i) (continuations s)\<rparr>))
      else None)"
| "step (Rejects p i e) s =
     (if (p, i) \<in> set (continuations s)
      then Some (case promiseRejected p e i (s\<lparr>continuations := remove1 (p, i) (continuations s)\<rparr>) of
                   Inl (err, s') \<Rightarrow> s' | Inr s' \<Rightarrow> s')
      else None)"

fun exec :: "js_value action list \<Rightarrow> js_value PromisePool \<Rightarrow> js_value PromisePool option" where
  "exec [] s = Some s"
| "exec (a # as) s = (case step a s of None \<Rightarrow> None | Some s' \<Rightarrow> exec as s')"

section \<open>Caller code that runs inside the pool\<close>

text \<open>
  The source calls caller code in two places: \<^verbatim>\<open>nextQueuedPromise.generator()\<close> in the
  loop of \<^verbatim>\<open>runNext\<close>, after the \<^verbatim>\<open>shift\<close> and before the \<^verbatim>\<open>push\<close>, and \<^verbatim>\<open>cb()\<close> in
  the loop of \<^verbatim>\<open>#emit\<close>. In this section that code runs. A piece of caller code is a list of
  calls of the pool's methods \<^verbatim>\<open>start\<close>, \<^verbatim>\<open>enqueue\<close> and \<^verbatim>\<open>close\<close>, made in order on
  the pool itself, followed by a return or by the throw of a value. An exception thrown by
  one of the calls is not caught: it ends the code, which throws it. A generator that
  returns returns its promise; the promise still stands for the generator. Caller code
  that registers a listener from inside such a call is not covered.
\<close>

datatype api_call = DoStart | DoEnqueue promise_ref | DoClose

type_synonym code = "api_call list \<times> js_value option"

text \<open>The code behind each generator and each listener callback.\<close>

record caller_code =
  generator_code :: "promise_ref \<Rightarrow> code"
  callback_code :: "callback \<Rightarrow> code"

text \<open>How a call ends: it returns, or it throws a value; either way with the pool as it is
  then.\<close>

datatype outcome = Returned "js_value PromisePool" | Threw js_value "js_value PromisePool"

text \<open>
  The methods of the pool, its two loops, and the running of caller code. \<open>Launch added\<close>
  is the \<^verbatim>\<open>while\<close> loop of \<^verbatim>\<open>runNext\<close> with its counter, followed by the \<^verbatim>\<open>if\<close> that
  emits \<^verbatim>\<open>full\<close>; \<open>EmitLoop t es\<close> is the \<^verbatim>\<open>for\<close> loop of \<^verbatim>\<open>#emit\<close> with the entries
  still to visit.
\<close>

datatype routine =
    Start
  | Enqueue promise_ref
  | Close
  | RunNext
  | Launch nat
  | Emit POOL_EVENT_TYPE
  | EmitLoop POOL_EVENT_TYPE listener_map
  | Calls "api_call list"
  | Code code

text \<open>The errors \<^verbatim>\<open>enqueue\<close> and \<^verbatim>\<open>JSON.stringify\<close> throw are \<^verbatim>\<open>Error\<close> instances.\<close>

fun thrown :: "error \<Rightarrow> js_value" where
  "thrown (Error msg) = JsError msg"
| "thrown (TypeError msg) = JsError msg"

text \<open>Whether the listener map of an event still holds a callback.\<close>

definition has_key :: "POOL_EVENT_TYPE \<Rightarrow> callback \<Rightarrow> 'v PromisePool \<Rightarrow> bool" where
  "has_key t cb s = (case listeners s t of None \<Rightarrow> False | Some m \<Rightarrow> cb \<in> set (map fst m))"

text \<open>
  The methods call each other through the caller code, and a listener can call the method
  that emits its own event, so the calls need not end. \<open>run\<close> takes a bound on the depth of
  the calls, and returns \<open>None\<close> where the bound is reached.

  An exception leaves each method where it is thrown: in \<^verbatim>\<open>start\<close>, a listener of
  \<^verbatim>\<open>start\<close> that throws leaves \<^verbatim>\<open>#isStarted\<close> unset; in the loop of \<^verbatim>\<open>runNext\<close>, a
  generator that throws has been shifted off the queue and is not pushed.

  The \<^verbatim>\<open>for\<close> loop over the \<^verbatim>\<open>Map\<close> is live: an entry deleted before the loop reaches it
  is skipped. While an emission runs no entry is added or overwritten (caller code
  registers no listener), so the loop goes through the entries present at its start and
  skips those the map no longer holds.
\<close>

fun run :: "caller_code \<Rightarrow> nat \<Rightarrow> routine \<Rightarrow> js_value PromisePool \<Rightarrow> outcome option" where
  "run E 0 r s = None"
| "run E (Suc n) (Code (cs, ending)) s =
     (case run E n (Calls cs) s of
        Some (Returned s') \<Rightarrow> (case ending of None \<Rightarrow> Some (Returned s') | Some e \<Rightarrow> Some (Threw e s'))
      | r \<Rightarrow> r)"
| "run E (Suc n) (Calls []) s = Some (Returned s)"
| "run E (Suc n) (Calls (c # cs)) s =
     (case run E n (case c of DoStart \<Rightarrow> Start | DoEnqueue g \<Rightarrow> Enqueue g | DoClose \<Rightarrow> Close) s of
        Some (Returned s') \<Rightarrow> run E n (Calls cs) s'
      | r \<Rightarrow> r)"
| "run E (Suc n) Start s =
     (if \<not> isStarted s
      then (case run E n (Emit EvStart) s of
              Some (Returned s1) \<Rightarrow> run E n RunNext (s1\<lparr>isStarted := True\<rparr>)
            | r \<Rightarrow> r)
      else run E n RunNext s)"
| "run E (Suc n) (Enqueue promiseGenerator) s =
     (if isClosed s then Some (Threw (JsError (''['' @ name s @ ''] PromisePool already closed'')) s)
      else if isResolved s then Some (Threw (JsError (''['' @ name s @ ''] PromisePool already performed'')) s)
      else
        (let s1 = s\<lparr>enqueued := enqueued s @ [\<lparr>generator = promiseGenerator, index = currentIndex s\<rparr>],
                    currentIndex := currentIndex s + 1\<rparr>
         in if opt_autoStart s1 \<and> \<not> isStarted s1 then run E n Start s1
            else if isStarted s1 then run E n RunNext s1
            else Some (Returned s1)))"
| "run E (Suc n) Close s = run E n Start (s\<lparr>isClosed := True\<rparr>)"
| "run E (Suc n) RunNext s =
     (if isStarted s then
        (if enqueued s \<noteq> [] then run E n (Launch 0) s
         else if running s = [] then
           (if isClosed s
            then Some (Returned (resolve_promise (result s) (s\<lparr>isResolved := True\<rparr>)))
            else Some (Returned s))
         else
           (if length_eq_pred (length (running s)) (pool_size s)
            then run E n (Emit EvAvailable) s
            else Some (Returned s)))
      else Some (Returned s))"
| "run E (Suc n) (Launch added) s =
     (if length_lt (length (running s)) (pool_size s) \<and> enqueued s \<noteq> []
      then (let nextQueuedPromise = hd (enqueued s)
            in case run E n (Code (generator_code E (generator nextQueuedPromise)))
                      (s\<lparr>enqueued := tl (enqueued s)\<rparr>) of
                 Some (Returned s2) \<Rightarrow>
                   run E n (Launch (added + 1))
                     (s2\<lparr>continuations := continuations s2 @ [(generator nextQueuedPromise, index nextQueuedPromise)],
                         running := running s2 @ [generator nextQueuedPromise]\<rparr>)
               | r \<Rightarrow> r)
      else (if length_ge (length (running s)) (pool_size s)
            then (if added \<noteq> 0 then run E n (Emit EvFull) s else Some (Returned s))
            else Some (Returned s)))"
| "run E (Suc n) (Emit t) s =
     (let s0 = s\<lparr>emitted := emitted s @ [t]\<rparr>
      in case listeners s0 t of
           None \<Rightarrow> Some (Returned s0)
         | Some m \<Rightarrow> run E n (EmitLoop t m) s0)"
| "run E (Suc n) (EmitLoop t []) s = Some (Returned s)"
| "run E (Suc n) (EmitLoop t ((cb, only_once) # es)) s =
     (if has_key t cb s
      then (case run E n (Code (callback_code E cb)) (s\<lparr>calls := calls s @ [(t, cb)]\<rparr>) of
              Some (Returned s1) \<Rightarrow>
                run E n (EmitLoop t es)
                  (if only_once
                   then s1\<lparr>listeners := (listeners s1)(t := map_option (\<lambda>m. map_delete m cb) (listeners s1 t))\<rparr>
                   else s1)
            | r \<Rightarrow> r)
      else run E n (EmitLoop t es) s)"

text \<open>The two continuations. They are called by the runtime only.\<close>

definition promiseDoneR ::
  "caller_code \<Rightarrow> nat \<Rightarrow> promise_ref \<Rightarrow> js_value \<Rightarrow> nat \<Rightarrow> js_value PromisePool \<Rightarrow> outcome option" where
  "promiseDoneR E n p res idx s =
     (if isResolved s then Some (Returned s)
      else case indexOf (running s) p of
             Some promiseIndex \<Rightarrow>
               (case run E n (Emit EvNext)
                       (s\<lparr>running := splice1 (running s) promiseIndex,
                          result := array_set (result s) idx (Value res)\<rparr>) of
                  Some (Returned s2) \<Rightarrow> run E n RunNext s2
                | r \<Rightarrow> r)
           | None \<Rightarrow> Some (Returned s))"

definition promiseRejectedR ::
  "caller_code \<Rightarrow> nat \<Rightarrow> promise_ref \<Rightarrow> js_value \<Rightarrow> nat \<Rightarrow> js_value PromisePool \<Rightarrow> outcome option" where
  "promiseRejectedR E n p err idx s =
     (if isResolved s then Some (Returned s)
      else case indexOf (running s) p of
             Some promiseIndex \<Rightarrow>
               (let s1 = s\<lparr>running := splice1 (running s) promiseIndex,
                           result := array_set (result s) idx
                                       (PoolErrorImpl (rejection_message idx) err)\<rparr>
                in if opt_rejectOnError s1
                   then Some (Returned (reject_promise err (s1\<lparr>isResolved := True\<rparr>)))
                   else (case console_error_argument err of
                           Inl e \<Rightarrow> Some (Threw (thrown e) s1)
                         | Inr printed \<Rightarrow>
                             (case run E n (Emit EvNext) s1 of
                                Some (Returned s2) \<Rightarrow> run E n RunNext s2
                              | r \<Rightarrow> r)))
           | None \<Rightarrow> Some (Returned s))"

text \<open>
  Runs, with caller code. An exception that reaches the caller of a public method, or the
  runtime, leaves the pool as it is at the throw. The continuation of a launched promise is
  \<^verbatim>\<open>then(promiseDone).catch(promiseRejected)\<close>: when the promise fulfils and
  \<^verbatim>\<open>promiseDone\<close> throws, \<^verbatim>\<open>promiseRejected\<close> is called with what was thrown.
\<close>

fun pool_after :: "outcome \<Rightarrow> js_value PromisePool" where
  "pool_after (Returned s) = s"
| "pool_after (Threw e s) = s"

fun stepR :: "caller_code \<Rightarrow> nat \<Rightarrow> js_value action \<Rightarrow> js_value PromisePool \<Rightarrow> js_value PromisePool option" where
  "stepR E n CallStart s = map_option pool_after (run E n Start s)"
| "stepR E n (CallEnqueue g) s = map_option pool_after (run E n (Enqueue g) s)"
| "stepR E n CallClose s = map_option pool_after (run E n Close s)"
| "stepR E n (CallOn t cb) s = Some (on t cb s)"
| "stepR E n (CallOnce t cb) s = Some (once t cb s)"
| "stepR E n (Fulfils p i v) s =
     (if (p, i) \<in> set (continuations s)
      then (case promiseDoneR E n p v i (s\<lparr>continuations := remove1 (p, i) (continuations s)\<rparr>) of
              Some (Threw e s') \<Rightarrow> map_option pool_after (promiseRejectedR E n p e i s')
            | r \<Rightarrow> map_option pool_after r)
      else None)"
| "stepR E n (Rejects p i e) s =
     (if (p, i) \<in> set (continuations s)
      then map_option pool_after (promiseRejectedR E n p e i (s\<lparr>continuations := remove1 (p, i) (continuations s)\<rparr>))
      else None)"

fun execR :: "caller_code \<Rightarrow> nat \<Rightarrow> js_value action list \<Rightarrow> js_value PromisePool \<Rightarrow> js_value PromisePool option" where
  "execR E n [] s = Some s"
| "execR E n (a # as) s = (case stepR E n a s of None \<Rightarrow> None | Some s' \<Rightarrow> execR E n as s')"

section \<open>Auxiliary definitions\<close>

text \<open>The number of launches of one pass: the free slots, or the whole queue.\<close>

definition launches :: "number \<Rightarrow> nat \<Rightarrow> nat \<Rightarrow> nat" where
  "launches sz r q = (case sz of Num c \<Rightarrow> min (nat (c - int r)) q | Infinity \<Rightarrow> q)"

definition launched :: "nat \<Rightarrow> 'v PromisePool \<Rightarrow> 'v PromisePool" where
  "launched n s =
     s\<lparr>enqueued := drop n (enqueued s),
       continuations := continuations s @ map (\<lambda>q. (generator q, index q)) (take n (enqueued s)),
       running := running s @ map generator (take n (enqueued s))\<rparr>"

text \<open>The enqueue step of a run, whether the call throws or not.\<close>

definition enqueue_step :: "promise_ref \<Rightarrow> 'v PromisePool \<Rightarrow> 'v PromisePool" where
  "enqueue_step g s = (case enqueue g s of Inl (e, s') \<Rightarrow> s' | Inr s' \<Rightarrow> s')"

text \<open>The failure step of a run, whether the continuation throws or not.\<close>

definition rejected_step :: "promise_ref \<Rightarrow> js_value \<Rightarrow> nat \<Rightarrow> js_value PromisePool \<Rightarrow> js_value PromisePool" where
  "rejected_step p e i s = (case promiseRejected p e i s of Inl (err, s') \<Rightarrow> s' | Inr s' \<Rightarrow> s')"

definition admit :: "promise_ref \<Rightarrow> 'v PromisePool \<Rightarrow> 'v PromisePool" where
  "admit g s = s\<lparr>enqueued := enqueued s @ [\<lparr>generator = g, index = currentIndex s\<rparr>],
                 currentIndex := currentIndex s + 1\<rparr>"

fun cap_bound :: "number \<Rightarrow> nat \<Rightarrow> bool" where
  "cap_bound (Num c) n = (int n \<le> max c 0)"
| "cap_bound Infinity n = True"

definition within_cap :: "'v PromisePool \<Rightarrow> bool" where
  "within_cap s = cap_bound (pool_size s) (length (running s))"

definition settle_task :: "promise_ref \<Rightarrow> nat \<Rightarrow> 'v slot \<Rightarrow> 'v PromisePool \<Rightarrow> 'v PromisePool" where
  "settle_task p i x s = s\<lparr>running := remove1 p (running s), result := array_set (result s) i x\<rparr>"

text \<open>The completion an action delivers: the index, the promise and the slot value.\<close>

fun completion :: "js_value action \<Rightarrow> (nat \<times> promise_ref \<times> js_value slot) option" where
  "completion (Fulfils p i v) = Some (i, p, Value v)"
| "completion (Rejects p i e) = Some (i, p, PoolErrorImpl (rejection_message i) e)"
| "completion _ = None"

text \<open>The completions a run delivers for index \<open>i\<close>, in order.\<close>

fun completions :: "js_value action list \<Rightarrow> nat \<Rightarrow> (promise_ref \<times> js_value slot) list" where
  "completions [] i = []"
| "completions (a # as) i =
     (case completion a of Some (j, px) \<Rightarrow> if j = i then [px] else [] | None \<Rightarrow> [])
     @ completions as i"

text \<open>The generators a run admits (the \<^verbatim>\<open>enqueue\<close> calls that do not throw), in order.\<close>

fun admits :: "js_value action \<Rightarrow> js_value PromisePool \<Rightarrow> promise_ref list" where
  "admits (CallEnqueue g) s = (case enqueue g s of Inl _ \<Rightarrow> [] | Inr _ \<Rightarrow> [g])"
| "admits _ s = []"

declare admits.simps(1) [simp del]

fun admitted :: "js_value action list \<Rightarrow> js_value PromisePool \<Rightarrow> promise_ref list" where
  "admitted [] s = []"
| "admitted (a # as) s = (case step a s of None \<Rightarrow> [] | Some s' \<Rightarrow> admits a s @ admitted as s')"

text \<open>The number of tasks launched so far: the indices below it have left the queue.\<close>

definition launched_upto :: "'v PromisePool \<Rightarrow> nat" where
  "launched_upto s = currentIndex s - length (enqueued s)"

text \<open>
  The invariant of accumulate mode, for the admitted generators \<open>adm\<close> and the
  completions \<open>oc\<close> delivered so far: the queue holds the admitted tasks not yet launched,
  in order; the running promises are those whose continuation is pending; every launched
  index is either pending, or completed once with its outcome stored in its slot.
\<close>

definition core :: "promise_ref list \<Rightarrow> (nat \<Rightarrow> (promise_ref \<times> 'v slot) list) \<Rightarrow> 'v PromisePool \<Rightarrow> bool" where
  "core adm oc s \<longleftrightarrow>
     length adm = currentIndex s \<and>
     length (enqueued s) \<le> currentIndex s \<and>
     enqueued s = map (\<lambda>i. \<lparr>generator = adm ! i, index = i\<rparr>) [launched_upto s ..< currentIndex s] \<and>
     mset (running s) = mset (map fst (continuations s)) \<and>
     distinct (map snd (continuations s)) \<and>
     (\<forall>(p, i) \<in> set (continuations s). i < launched_upto s \<and> p = adm ! i) \<and>
     (\<forall>i < launched_upto s.
        if i \<in> snd ` set (continuations s) then oc i = []
        else \<exists>x. oc i = [(adm ! i, x)] \<and> i < length (result s) \<and> result s ! i = Some x) \<and>
     (\<forall>i \<ge> launched_upto s. oc i = []) \<and>
     length (result s) \<le> launched_upto s \<and>
     (isResolved s \<longrightarrow> running s = [] \<and> enqueued s = [] \<and> isClosed s \<and> promise s = Fulfilled (result s)) \<and>
     (\<not> isResolved s \<longrightarrow> promise s = Pending)"

text \<open>Lifecycle: what a scheduling pass establishes.\<close>

definition life :: "'v PromisePool \<Rightarrow> bool" where
  "life s \<longleftrightarrow>
     (isClosed s \<longrightarrow> isStarted s) \<and>
     (isClosed s \<and> enqueued s = [] \<and> running s = [] \<longrightarrow> isResolved s) \<and>
     (isStarted s \<and> enqueued s \<noteq> [] \<longrightarrow> \<not> length_lt (length (running s)) (pool_size s))"

text \<open>An action whose continuation returns: not a failure whose cause cannot be printed.\<close>

fun prints :: "js_value action \<Rightarrow> bool" where
  "prints (Rejects p i e) = (\<not> isl (console_error_argument e))"
| "prints _ = True"

text \<open>No \<^verbatim>\<open>close\<close> emission has happened, and every callback call belongs to an emission.\<close>

definition quiet_close :: "'v PromisePool \<Rightarrow> bool" where
  "quiet_close s \<longleftrightarrow> EvClose \<notin> set (emitted s) \<and> fst ` set (calls s) \<subseteq> set (emitted s)"

text \<open>The states of a pool whose cap is negative: nothing is ever launched.\<close>

definition stalled :: "'v PromisePool \<Rightarrow> bool" where
  "stalled s \<longleftrightarrow>
     (\<exists>c < 0. pool_size s = Num c) \<and>
     running s = [] \<and> continuations s = [] \<and> result s = [] \<and>
     length (enqueued s) = currentIndex s \<and>
     (isClosed s \<longrightarrow> isStarted s) \<and>
     (if isClosed s \<and> currentIndex s = 0 then isResolved s \<and> promise s = Fulfilled []
      else \<not> isResolved s \<and> promise s = Pending)"

text \<open>The emissions of one event in the trace.\<close>

definition emissions :: "POOL_EVENT_TYPE \<Rightarrow> 'v PromisePool \<Rightarrow> POOL_EVENT_TYPE list" where
  "emissions t s = filter (\<lambda>u. u = t) (emitted s)"


text \<open>Every listener map holds each callback at most once, as a \<^verbatim>\<open>Map\<close> does.\<close>

definition wf_listeners :: "'v PromisePool \<Rightarrow> bool" where
  "wf_listeners s \<longleftrightarrow> (\<forall>t m. listeners s t = Some m \<longrightarrow> distinct (map fst m))"

text \<open>Every pending continuation belongs to a promise held in \<^verbatim>\<open>#running\<close>.\<close>

definition tracked :: "'v PromisePool \<Rightarrow> bool" where
  "tracked s \<longleftrightarrow> mset (map fst (continuations s)) \<subseteq># mset (running s)"

text \<open>Caller code that returns at once: it calls no method of the pool and does not throw.\<close>

definition at_once :: code where
  "at_once = ([], None)"

definition all_events :: "POOL_EVENT_TYPE list" where
  "all_events = [EvStart, EvFull, EvNext, EvClose, EvAvailable]"

text \<open>The entries of the listener map of an event.\<close>

definition entries :: "POOL_EVENT_TYPE \<Rightarrow> 'v PromisePool \<Rightarrow> listener_map" where
  "entries t s = (case listeners s t of None \<Rightarrow> [] | Some m \<Rightarrow> m)"

text \<open>Every generator in the queue and every registered listener returns at once.\<close>

definition at_once_in :: "caller_code \<Rightarrow> 'v PromisePool \<Rightarrow> bool" where
  "at_once_in E s \<longleftrightarrow>
     list_all (\<lambda>q. generator_code E (generator q) = at_once) (enqueued s) \<and>
     list_all (\<lambda>t. list_all (\<lambda>kv. callback_code E (fst kv) = at_once) (entries t s)) all_events"

text \<open>The generator or the listener an action hands to the pool returns at once.\<close>

fun brings_at_once :: "caller_code \<Rightarrow> js_value action \<Rightarrow> bool" where
  "brings_at_once E (CallEnqueue g) = (generator_code E g = at_once)"
| "brings_at_once E (CallOn t cb) = (callback_code E cb = at_once)"
| "brings_at_once E (CallOnce t cb) = (callback_code E cb = at_once)"
| "brings_at_once E a = True"

text \<open>What bounds the depth of the calls of one operation when the caller code returns at
  once: the length of the queue and the number of registered listeners.\<close>

definition budget :: "'v PromisePool \<Rightarrow> nat" where
  "budget s = length (enqueued s) + sum_list (map (\<lambda>t. length (entries t s)) all_events)"

text \<open>\<open>s'\<close> holds a suffix of the queue of \<open>s\<close> and, for each event, some of its listeners.\<close>

definition shrinks :: "'v PromisePool \<Rightarrow> 'v PromisePool \<Rightarrow> bool" where
  "shrinks s' s \<longleftrightarrow>
     (\<exists>k. enqueued s' = drop k (enqueued s)) \<and> (\<forall>u. \<exists>P. entries u s' = filter P (entries u s))"




subsection \<open>Example pools\<close>

definition cap2 :: PoolOptions where
  "cap2 = \<lparr>concurrency = Num 2, opt_name = None, rejectOnError = None, autoStart = None\<rparr>"

definition failfast1 :: PoolOptions where
  "failfast1 = \<lparr>concurrency = Num 1, opt_name = None, rejectOnError = Some True, autoStart = None\<rparr>"

definition run_out_of_order :: "js_value action list" where
  "run_out_of_order =
     [CallEnqueue 100, CallEnqueue 101, CallEnqueue 102, Fulfils 101 1 (JsNumber 11),
      Rejects 102 2 (JsError ''boom''), CallClose, Fulfils 100 0 (JsNumber 10)]"

definition run_five :: "js_value action list" where
  "run_five =
     [CallEnqueue 100, CallEnqueue 101, CallEnqueue 102, CallEnqueue 103, CallEnqueue 104,
      Fulfils 103 3 (JsNumber 13), Rejects 102 2 (JsError ''boom''), Fulfils 100 0 (JsNumber 10),
      CallClose, Fulfils 104 4 (JsNumber 14), Fulfils 101 1 (JsNumber 11)]"

definition run_failfast :: "js_value action list" where
  "run_failfast = [CallEnqueue 100, CallEnqueue 101, Rejects 100 0 (JsError ''boom''), CallClose]"

definition run_close_listener :: "js_value action list" where
  "run_close_listener =
     [CallOn EvClose 5, CallOnce EvClose 6, CallEnqueue 100, CallClose, Fulfils 100 0 (JsNumber 7)]"

definition run_cyclic_cause :: "js_value action list" where
  "run_cyclic_cause = [CallEnqueue 100, CallClose, Rejects 100 0 (JsCyclic 1)]"



definition ex_one_running :: "js_value PromisePool" where
  "ex_one_running = admit 101 (the (exec [CallEnqueue 100] (new_PromisePool (Some cap2))))"

definition ex_two_running :: "js_value PromisePool" where
  "ex_two_running = the (exec [CallEnqueue 100, CallEnqueue 101] (new_PromisePool (Some cap2)))"

definition cap1 :: PoolOptions where
  "cap1 = \<lparr>concurrency = Num 1, opt_name = None, rejectOnError = None, autoStart = None\<rparr>"


text \<open>Caller code: all of it returns at once; generator 100 throws; generator 100 calls
  \<^verbatim>\<open>close()\<close>; generator 100 enqueues generator 101; generator 102 calls \<^verbatim>\<open>start()\<close>;
  listener 7 enqueues generator 102.\<close>

definition returning :: caller_code where
  "returning = \<lparr>generator_code = (\<lambda>g. at_once), callback_code = (\<lambda>cb. at_once)\<rparr>"

definition throwing_generator :: caller_code where
  "throwing_generator =
     \<lparr>generator_code = (\<lambda>g. if g = 100 then ([], Some (JsError ''sync'')) else at_once),
      callback_code = (\<lambda>cb. at_once)\<rparr>"

definition closing_generator :: caller_code where
  "closing_generator =
     \<lparr>generator_code = (\<lambda>g. if g = 100 then ([DoClose], None) else at_once),
      callback_code = (\<lambda>cb. at_once)\<rparr>"

definition enqueuing_generator :: caller_code where
  "enqueuing_generator =
     \<lparr>generator_code = (\<lambda>g. if g = 100 then ([DoEnqueue 101], None) else at_once),
      callback_code = (\<lambda>cb. at_once)\<rparr>"



definition run_sync_throw :: "js_value action list" where
  "run_sync_throw = [CallEnqueue 100, CallEnqueue 101, Fulfils 101 1 (JsNumber 5), CallClose]"



section \<open>Lemmas\<close>

subsection \<open>What an emission leaves alone\<close>

lemma emit_loop_frame:
  "pool_size (emit_loop t es s) = pool_size s"
  "name (emit_loop t es s) = name s"
  "options (emit_loop t es s) = options s"
  "currentIndex (emit_loop t es s) = currentIndex s"
  "running (emit_loop t es s) = running s"
  "enqueued (emit_loop t es s) = enqueued s"
  "result (emit_loop t es s) = result s"
  "isStarted (emit_loop t es s) = isStarted s"
  "isClosed (emit_loop t es s) = isClosed s"
  "isResolved (emit_loop t es s) = isResolved s"
  "promise (emit_loop t es s) = promise s"
  "continuations (emit_loop t es s) = continuations s"
  "emitted (emit_loop t es s) = emitted s"
  by (induction t es s rule: emit_loop.induct; simp add: Let_def)+

lemma emit_frame [simp]:
  "pool_size (emit t s) = pool_size s"
  "name (emit t s) = name s"
  "options (emit t s) = options s"
  "currentIndex (emit t s) = currentIndex s"
  "running (emit t s) = running s"
  "enqueued (emit t s) = enqueued s"
  "result (emit t s) = result s"
  "isStarted (emit t s) = isStarted s"
  "isClosed (emit t s) = isClosed s"
  "isResolved (emit t s) = isResolved s"
  "promise (emit t s) = promise s"
  "continuations (emit t s) = continuations s"
  by (simp_all add: emit_def Let_def emit_loop_frame split: option.splits)

lemma emitted_emit [simp]: "emitted (emit t s) = emitted s @ [t]"
  by (simp add: emit_def Let_def emit_loop_frame split: option.splits)

lemma opt_emit [simp]:
  "opt_rejectOnError (emit t s) = opt_rejectOnError s"
  "opt_autoStart (emit t s) = opt_autoStart s"
  by (simp_all add: opt_rejectOnError_def opt_autoStart_def)

subsection \<open>The launch loop in closed form\<close>

lemma launches_0:
  "\<not> (length_lt r sz \<and> 0 < q) \<Longrightarrow> launches sz r q = 0"
  by (cases sz) (auto simp: launches_def)

lemma launches_Suc:
  "length_lt r sz \<Longrightarrow> launches sz r (Suc q) = Suc (launches sz (Suc r) q)"
  by (cases sz) (auto simp: launches_def min_def)

lemma launched_0 [simp]: "launched 0 s = s"
  by (simp add: launched_def)

lemma launch_loop_eq:
  "launch_loop s added =
     (launched (launches (pool_size s) (length (running s)) (length (enqueued s))) s,
      added + launches (pool_size s) (length (running s)) (length (enqueued s)))"
proof (induction s added rule: launch_loop.induct)
  case (1 s added)
  show ?case
  proof (cases "length_lt (length (running s)) (pool_size s) \<and> enqueued s \<noteq> []")
    case False
    then have "launches (pool_size s) (length (running s)) (length (enqueued s)) = 0"
      by (intro launches_0) simp
    with False show ?thesis
      by (subst launch_loop.simps) auto
  next
    case True
    then obtain q rest where q: "enqueued s = q # rest"
      by (cases "enqueued s") auto
    from True have lt: "length_lt (length (running s)) (pool_size s)" by simp
    have n: "launches (pool_size s) (length (running s)) (Suc (length rest))
        = Suc (launches (pool_size s) (Suc (length (running s))) (length rest))"
      using lt by (rule launches_Suc)
    have "launch_loop s added =
        launch_loop
          (s\<lparr>enqueued := rest,
             continuations := continuations s @ [(generator q, index q)],
             running := running s @ [generator q]\<rparr>)
          (added + 1)"
      by (subst launch_loop.simps) (simp add: True q)
    also have "\<dots> =
        (launched (launches (pool_size s) (Suc (length (running s))) (length rest))
           (s\<lparr>enqueued := rest,
              continuations := continuations s @ [(generator q, index q)],
              running := running s @ [generator q]\<rparr>),
         added + 1 + launches (pool_size s) (Suc (length (running s))) (length rest))"
      using "1.IH"[OF True q] by simp
    finally show ?thesis
      by (simp add: q n launched_def)
  qed
qed

subsection \<open>Array primitives\<close>

lemma indexOf_None: "indexOf xs p = None \<longleftrightarrow> p \<notin> set xs"
  by (induction xs) auto

lemma indexOf_splice1: "indexOf xs p = Some k \<Longrightarrow> splice1 xs k = remove1 p xs"
proof (induction xs arbitrary: k)
  case Nil
  then show ?case by simp
next
  case (Cons x xs)
  show ?case
  proof (cases "x = p")
    case True
    with Cons.prems show ?thesis by (simp add: splice1_def)
  next
    case False
    with Cons.prems obtain j where j: "indexOf xs p = Some j" "k = Suc j"
      by auto
    from Cons.IH[OF j(1)] False j(2) show ?thesis
      by (simp add: splice1_def)
  qed
qed

lemma indexOf_Some_mem: "indexOf xs p = Some k \<Longrightarrow> p \<in> set xs"
  using indexOf_None[of xs p] by auto

subsection \<open>The state after a number of launches\<close>

lemma launched_frame [simp]:
  "pool_size (launched n s) = pool_size s"
  "name (launched n s) = name s"
  "options (launched n s) = options s"
  "currentIndex (launched n s) = currentIndex s"
  "result (launched n s) = result s"
  "isStarted (launched n s) = isStarted s"
  "isClosed (launched n s) = isClosed s"
  "isResolved (launched n s) = isResolved s"
  "promise (launched n s) = promise s"
  "listeners (launched n s) = listeners s"
  "emitted (launched n s) = emitted s"
  "calls (launched n s) = calls s"
  by (simp_all add: launched_def)

lemma launched_fields:
  "enqueued (launched n s) = drop n (enqueued s)"
  "running (launched n s) = running s @ map generator (take n (enqueued s))"
  "continuations (launched n s) =
     continuations s @ map (\<lambda>q. (generator q, index q)) (take n (enqueued s))"
  by (simp_all add: launched_def)

subsection \<open>The scheduling pass and the methods\<close>

text \<open>One scheduling pass, with the loop in closed form.\<close>

lemma runNext_eq:
  "runNext s =
     (if isStarted s then
        (if enqueued s \<noteq> [] then
           (let n = launches (pool_size s) (length (running s)) (length (enqueued s));
                s1 = launched n s
            in if length_ge (length (running s1)) (pool_size s) \<and> n \<noteq> 0
               then emit EvFull s1 else s1)
         else if running s = [] then
           (if isClosed s
            then resolve_promise (result s) (s\<lparr>isResolved := True\<rparr>)
            else s)
         else
           (if length_eq_pred (length (running s)) (pool_size s)
            then emit EvAvailable s
            else s))
      else s)"
  by (simp add: runNext_def launch_loop_eq Let_def)

lemma runNext_frame [simp]:
  "pool_size (runNext s) = pool_size s"
  "name (runNext s) = name s"
  "options (runNext s) = options s"
  "currentIndex (runNext s) = currentIndex s"
  "result (runNext s) = result s"
  "isStarted (runNext s) = isStarted s"
  "isClosed (runNext s) = isClosed s"
  by (simp_all add: runNext_eq Let_def resolve_promise_def)

lemma opt_runNext [simp]:
  "opt_rejectOnError (runNext s) = opt_rejectOnError s"
  "opt_autoStart (runNext s) = opt_autoStart s"
  by (simp_all add: opt_rejectOnError_def opt_autoStart_def)

lemma start_frame [simp]:
  "pool_size (start s) = pool_size s"
  "name (start s) = name s"
  "options (start s) = options s"
  "currentIndex (start s) = currentIndex s"
  "result (start s) = result s"
  "isStarted (start s) = True"
  "isClosed (start s) = isClosed s"
  by (simp_all add: start_def)

lemma close_frame [simp]:
  "pool_size (close s) = pool_size s"
  "name (close s) = name s"
  "options (close s) = options s"
  "currentIndex (close s) = currentIndex s"
  "result (close s) = result s"
  "isStarted (close s) = True"
  "isClosed (close s) = True"
  by (simp_all add: close_def)

lemma listeners_set_frame [simp]:
  "pool_size (listeners_set t cb b s) = pool_size s"
  "name (listeners_set t cb b s) = name s"
  "options (listeners_set t cb b s) = options s"
  "currentIndex (listeners_set t cb b s) = currentIndex s"
  "running (listeners_set t cb b s) = running s"
  "enqueued (listeners_set t cb b s) = enqueued s"
  "result (listeners_set t cb b s) = result s"
  "isStarted (listeners_set t cb b s) = isStarted s"
  "isClosed (listeners_set t cb b s) = isClosed s"
  "isResolved (listeners_set t cb b s) = isResolved s"
  "promise (listeners_set t cb b s) = promise s"
  "continuations (listeners_set t cb b s) = continuations s"
  "emitted (listeners_set t cb b s) = emitted s"
  "calls (listeners_set t cb b s) = calls s"
  by (simp_all add: listeners_set_def)

lemma enqueue_step_eq:
  "enqueue_step g s =
     (if isClosed s \<or> isResolved s then s
      else if opt_autoStart s \<and> \<not> isStarted s then start (admit g s)
      else runNext (admit g s))"
  by (simp add: enqueue_step_def enqueue_def admit_def Let_def opt_autoStart_def runNext_def)

subsection \<open>Runs and invariants\<close>

lemma exec_invariant:
  assumes step: "\<And>a s s'. P s \<Longrightarrow> step a s = Some s' \<Longrightarrow> P s'"
    and init: "P s" and run: "exec as s = Some s'"
  shows "P s'"
  using init run
proof (induction as arbitrary: s)
  case Nil
  then show ?case by simp
next
  case (Cons a as)
  from Cons.prems(2) obtain s1 where s1: "step a s = Some s1" "exec as s1 = Some s'"
    by (auto split: option.splits)
  from step[OF Cons.prems(1) s1(1)] have "P s1" .
  from Cons.IH[OF this s1(2)] show ?case .
qed

lemma exec_append:
  "exec (as @ bs) s = (case exec as s of None \<Rightarrow> None | Some s' \<Rightarrow> exec bs s')"
  by (induction as arbitrary: s) (auto split: option.splits)

lemma runNext_cases [case_names same launch resolve available]:
  obtains
    (same) "runNext s = s"
  | (launch) n where "isStarted s" "enqueued s \<noteq> []"
      "n = launches (pool_size s) (length (running s)) (length (enqueued s))"
      "runNext s = launched n s \<or> runNext s = emit EvFull (launched n s)"
  | (resolve) "isStarted s" "enqueued s = []" "running s = []" "isClosed s"
      "runNext s = resolve_promise (result s) (s\<lparr>isResolved := True\<rparr>)"
  | (available) "isStarted s" "enqueued s = []" "running s \<noteq> []"
      "runNext s = emit EvAvailable s"
proof (cases "isStarted s")
  case False
  then have "runNext s = s" by (simp add: runNext_eq)
  then show ?thesis by (rule same)
next
  case started: True
  show ?thesis
  proof (cases "enqueued s = []")
    case False
    with started show ?thesis
      by (intro launch[OF started False refl]) (simp add: runNext_eq Let_def)
  next
    case empty: True
    show ?thesis
    proof (cases "running s = []")
      case True
      with started empty show ?thesis
        by (cases "isClosed s") (auto simp: runNext_eq intro: same resolve)
    next
      case False
      with started empty show ?thesis
        by (cases "length_eq_pred (length (running s)) (pool_size s)")
           (auto simp: runNext_eq intro: same available)
    qed
  qed
qed

subsection \<open>The running bound\<close>

lemma within_cap_emit [simp]: "within_cap (emit t s) = within_cap s"
  by (simp add: within_cap_def)

lemma within_cap_listeners_set [simp]: "within_cap (listeners_set t cb b s) = within_cap s"
  by (simp add: within_cap_def)

lemma cap_bound_launches: "cap_bound sz r \<Longrightarrow> cap_bound sz (r + launches sz r q)"
  by (cases sz) (auto simp: launches_def)

lemma cap_bound_mono: "cap_bound sz r \<Longrightarrow> r' \<le> r \<Longrightarrow> cap_bound sz r'"
  by (cases sz) auto

lemma within_cap_runNext: "within_cap s \<Longrightarrow> within_cap (runNext s)"
proof (cases s rule: runNext_cases)
  case same
  assume "within_cap s"
  with same show ?thesis by simp
next
  case (launch n)
  assume "within_cap s"
  then have "within_cap (launched n s)"
    using cap_bound_launches[of "pool_size s" "length (running s)" "length (enqueued s)"]
    by (simp add: within_cap_def launched_fields launch(3) min.absorb2 launches_def split: number.splits)
  with launch(4) show ?thesis by auto
next
  case resolve
  assume "within_cap s"
  with resolve(5) show ?thesis
    by (simp add: within_cap_def resolve_promise_def)
next
  case available
  assume "within_cap s"
  with available(4) show ?thesis by simp
qed

lemma within_cap_start: "within_cap s \<Longrightarrow> within_cap (start s)"
  unfolding start_def by (rule within_cap_runNext) (simp add: within_cap_def)

lemma within_cap_close: "within_cap s \<Longrightarrow> within_cap (close s)"
  unfolding close_def by (rule within_cap_start) (simp add: within_cap_def)

lemma within_cap_enqueue_step: "within_cap s \<Longrightarrow> within_cap (enqueue_step g s)"
  by (auto simp: enqueue_step_eq intro!: within_cap_start within_cap_runNext)
     (simp_all add: within_cap_def admit_def)

lemma promiseDone_eq:
  "promiseDone p v i s =
     (if isResolved s \<or> p \<notin> set (running s) then s
      else runNext (emit EvNext (settle_task p i (Value v) s)))"
  by (auto simp: promiseDone_def settle_task_def indexOf_splice1 indexOf_None
      split: option.splits dest: indexOf_Some_mem)

lemma rejected_step_eq:
  "rejected_step p e i s =
     (if isResolved s \<or> p \<notin> set (running s) then s
      else if opt_rejectOnError s
        then reject_promise e ((settle_task p i (PoolErrorImpl (rejection_message i) e) s)\<lparr>isResolved := True\<rparr>)
      else if isl (console_error_argument e)
        then settle_task p i (PoolErrorImpl (rejection_message i) e) s
        else runNext (emit EvNext (settle_task p i (PoolErrorImpl (rejection_message i) e) s)))"
  by (auto simp: rejected_step_def promiseRejected_def settle_task_def indexOf_splice1 indexOf_None
      Let_def opt_rejectOnError_def split: option.splits sum.splits dest: indexOf_Some_mem)

lemma promiseRejected_Inr:
  "promiseRejected p e i s = Inr s' \<Longrightarrow> s' = rejected_step p e i s"
  by (simp add: rejected_step_def)

lemma step_Rejects:
  "step (Rejects p i e) s = Some s' \<longleftrightarrow>
     (p, i) \<in> set (continuations s) \<and>
     s' = rejected_step p e i (s\<lparr>continuations := remove1 (p, i) (continuations s)\<rparr>)"
  by (auto simp: rejected_step_def)

lemma within_cap_settle_task: "within_cap s \<Longrightarrow> within_cap (settle_task p i x s)"
  by (auto simp: within_cap_def settle_task_def length_remove1 elim: cap_bound_mono)

lemma within_cap_promiseDone: "within_cap s \<Longrightarrow> within_cap (promiseDone p v i s)"
  by (simp add: promiseDone_eq within_cap_runNext within_cap_settle_task)

lemma within_cap_rejected_step: "within_cap s \<Longrightarrow> within_cap (rejected_step p v i s)"
  using within_cap_settle_task[of s p i "PoolErrorImpl (rejection_message i) v"]
  by (simp add: rejected_step_eq within_cap_runNext)
     (simp add: within_cap_def reject_promise_def)

lemma within_cap_step: "within_cap s \<Longrightarrow> step a s = Some s' \<Longrightarrow> within_cap s'"
proof (cases a)
  case (CallEnqueue g)
  assume "within_cap s" "step a s = Some s'"
  with within_cap_enqueue_step[of s g] CallEnqueue show ?thesis
    by (simp add: enqueue_step_def)
next
  case (Fulfils p i v)
  assume "within_cap s" "step a s = Some s'"
  with Fulfils within_cap_promiseDone[of "s\<lparr>continuations := remove1 (p, i) (continuations s)\<rparr>" p v i]
  show ?thesis by (auto simp: within_cap_def split: if_splits)
next
  case (Rejects p i v)
  assume "within_cap s" "step a s = Some s'"
  with Rejects within_cap_rejected_step[of "s\<lparr>continuations := remove1 (p, i) (continuations s)\<rparr>" p v i]
  show ?thesis by (auto simp: step_Rejects within_cap_def simp del: step.simps)
qed (auto simp: within_cap_start within_cap_close on_def once_def)

lemma within_cap_new: "within_cap (new_PromisePool opts)"
  by (simp add: within_cap_def new_PromisePool_def)
     (cases "number_or (map_option concurrency opts) DEFAULT_CONCURRENCY"; simp)

lemma pool_size_step: "step a s = Some s' \<Longrightarrow> pool_size s' = pool_size s"
  by (cases a) (auto simp: enqueue_def Let_def on_def once_def promiseDone_def
      step_Rejects rejected_step_eq reject_promise_def settle_task_def
      simp del: step.simps(7) split: if_splits option.splits)

lemma options_step: "step a s = Some s' \<Longrightarrow> options s' = options s"
  by (cases a) (auto simp: enqueue_def Let_def on_def once_def promiseDone_def
      step_Rejects rejected_step_eq reject_promise_def settle_task_def
      simp del: step.simps(7) split: if_splits option.splits)

subsection \<open>Accumulate mode: the ordering invariant\<close>

lemma completions_snoc: "completions (as @ [a]) i = completions as i @ completions [a] i"
  by (induction as) auto

lemma admitted_snoc:
  "exec as s = Some s1 \<Longrightarrow>
   admitted (as @ [a]) s = admitted as s @ (if step a s1 = None then [] else admits a s1)"
  by (induction as arbitrary: s) (auto split: option.splits)

lemma core_emit [simp]: "core adm oc (emit t s) = core adm oc s"
  by (simp add: core_def launched_upto_def)

lemma core_listeners_set [simp]: "core adm oc (listeners_set t cb b s) = core adm oc s"
  by (simp add: core_def launched_upto_def)

lemma life_emit [simp]: "life (emit t s) = life s"
  by (simp add: life_def)

lemma life_listeners_set [simp]: "life (listeners_set t cb b s) = life s"
  by (simp add: life_def)

lemma core_isStarted [simp]: "core adm oc (s\<lparr>isStarted := b\<rparr>) = core adm oc s"
  by (simp add: core_def launched_upto_def)

lemma core_launched:
  assumes c: "core adm oc s" and n: "n \<le> length (enqueued s)"
  shows "core adm oc (launched n s)"
proof -
  let ?k = "launched_upto s"
  let ?c = "currentIndex s"
  let ?f = "\<lambda>i. \<lparr>generator = adm ! i, index = i\<rparr>"
  from c have len: "length adm = ?c" and le: "length (enqueued s) \<le> ?c"
    and q: "enqueued s = map ?f [?k ..< ?c]"
    and ms: "mset (running s) = mset (map fst (continuations s))"
    and dist: "distinct (map snd (continuations s))"
    and cont: "\<forall>(p, i) \<in> set (continuations s). i < ?k \<and> p = adm ! i"
    and res: "\<forall>i < ?k. if i \<in> snd ` set (continuations s) then oc i = []
        else \<exists>x. oc i = [(adm ! i, x)] \<and> i < length (result s) \<and> result s ! i = Some x"
    and fresh: "\<forall>i \<ge> ?k. oc i = []"
    and rlen: "length (result s) \<le> ?k"
    and settled: "isResolved s \<longrightarrow> running s = [] \<and> enqueued s = [] \<and> isClosed s \<and> promise s = Fulfilled (result s)"
    and pending: "\<not> isResolved s \<longrightarrow> promise s = Pending"
    unfolding core_def by blast+
  have kn: "?k + n \<le> ?c" and k: "?k + length (enqueued s) = ?c"
    using le n by (simp_all add: launched_upto_def)
  have tk: "take n (enqueued s) = map ?f [?k ..< ?k + n]"
    using kn by (subst q) (simp add: take_map take_upt)
  have dr: "drop n (enqueued s) = map ?f [?k + n ..< ?c]"
    by (subst q) (simp add: drop_map drop_upt)
  have k': "launched_upto (launched n s) = ?k + n"
    using k n by (simp add: launched_upto_def launched_fields)
  have conts': "continuations (launched n s) = continuations s @ map (\<lambda>i. (adm ! i, i)) [?k ..< ?k + n]"
    by (simp add: launched_fields tk o_def)
  have run': "running (launched n s) = running s @ map (\<lambda>i. adm ! i) [?k ..< ?k + n]"
    by (simp add: launched_fields tk o_def)
  have snd': "map snd (continuations (launched n s)) = map snd (continuations s) @ [?k ..< ?k + n]"
    by (simp add: conts' o_def)
  have old: "\<And>i. i \<in> snd ` set (continuations s) \<Longrightarrow> i < ?k"
    using cont by auto
  have 3: "enqueued (launched n s) = map ?f [launched_upto (launched n s) ..< currentIndex (launched n s)]"
    by (simp add: k' launched_fields(1) dr)
  have 4: "mset (running (launched n s)) = mset (map fst (continuations (launched n s)))"
    by (simp add: run' conts' ms o_def)
  have 5: "distinct (map snd (continuations (launched n s)))"
    unfolding snd' using dist old by (fastforce simp: image_iff)
  have 6: "\<forall>(p, i) \<in> set (continuations (launched n s)). i < launched_upto (launched n s) \<and> p = adm ! i"
    unfolding k' conts' using cont by auto
  have 7: "\<forall>i < launched_upto (launched n s).
        if i \<in> snd ` set (continuations (launched n s)) then oc i = []
        else \<exists>x. oc i = [(adm ! i, x)] \<and> i < length (result (launched n s)) \<and> result (launched n s) ! i = Some x"
  proof (intro allI impI)
    fix i assume i: "i < launched_upto (launched n s)"
    have mem: "i \<in> snd ` set (continuations (launched n s)) \<longleftrightarrow>
        i \<in> snd ` set (continuations s) \<or> ?k \<le> i"
      using i old[of i] unfolding k' set_map[symmetric] snd' by auto
    show "if i \<in> snd ` set (continuations (launched n s)) then oc i = []
        else \<exists>x. oc i = [(adm ! i, x)] \<and> i < length (result (launched n s)) \<and> result (launched n s) ! i = Some x"
    proof (cases "?k \<le> i")
      case True
      with mem fresh show ?thesis by simp
    next
      case False
      with mem res show ?thesis by (simp add: not_le)
    qed
  qed
  have 8: "\<forall>i \<ge> launched_upto (launched n s). oc i = []"
    unfolding k' using fresh by simp
  have 10: "isResolved (launched n s) \<longrightarrow> running (launched n s) = [] \<and> enqueued (launched n s) = [] \<and>
      isClosed (launched n s) \<and> promise (launched n s) = Fulfilled (result (launched n s))"
    using settled by (simp add: launched_fields)
  show ?thesis
    unfolding core_def
    using len le 3 4 5 6 7 8 rlen 10 pending
    by (simp add: k' launched_fields(1))
qed

lemma launches_le: "launches sz r q \<le> q"
  by (cases sz) (simp_all add: launches_def)

lemma launches_exhaust: "launches sz r q = q \<or> \<not> length_lt (r + launches sz r q) sz"
  by (cases sz) (auto simp: launches_def min_def)

lemma core_admit:
  assumes c: "core adm oc s" and nr: "\<not> isResolved s"
  shows "core (adm @ [g]) oc (admit g s)"
proof -
  let ?k = "launched_upto s"
  let ?c = "currentIndex s"
  let ?f = "\<lambda>i. \<lparr>generator = adm ! i, index = i\<rparr>"
  let ?f' = "\<lambda>i. \<lparr>generator = (adm @ [g]) ! i, index = i\<rparr>"
  from c have len: "length adm = ?c" and le: "length (enqueued s) \<le> ?c"
    and q: "enqueued s = map ?f [?k ..< ?c]"
    and ms: "mset (running s) = mset (map fst (continuations s))"
    and dist: "distinct (map snd (continuations s))"
    and cont: "\<forall>(p, i) \<in> set (continuations s). i < ?k \<and> p = adm ! i"
    and res: "\<forall>i < ?k. if i \<in> snd ` set (continuations s) then oc i = []
        else \<exists>x. oc i = [(adm ! i, x)] \<and> i < length (result s) \<and> result s ! i = Some x"
    and fresh: "\<forall>i \<ge> ?k. oc i = []"
    and rlen: "length (result s) \<le> ?k"
    and pending: "\<not> isResolved s \<longrightarrow> promise s = Pending"
    unfolding core_def by blast+
  have k': "launched_upto (admit g s) = ?k"
    using le by (simp add: launched_upto_def admit_def)
  have kc: "?k \<le> ?c"
    by (simp add: launched_upto_def)
  have nth: "\<And>i. i < ?c \<Longrightarrow> (adm @ [g]) ! i = adm ! i"
    using len by (simp add: nth_append)
  have "map ?f' [?k ..< Suc ?c] = map ?f' [?k ..< ?c] @ [?f' ?c]"
    using kc by simp
  also have "map ?f' [?k ..< ?c] = map ?f [?k ..< ?c]"
    by (rule map_cong) (simp_all add: nth)
  also have "?f' ?c = \<lparr>generator = g, index = ?c\<rparr>"
    using len by (simp add: nth_append)
  finally have 3: "enqueued (admit g s) = map ?f' [launched_upto (admit g s) ..< currentIndex (admit g s)]"
    unfolding k' using q by (simp add: admit_def)
  have 6: "\<forall>(p, i) \<in> set (continuations (admit g s)). i < launched_upto (admit g s) \<and> p = (adm @ [g]) ! i"
    unfolding k' using cont kc nth by (fastforce simp: admit_def)
  have 7: "\<forall>i < launched_upto (admit g s).
      if i \<in> snd ` set (continuations (admit g s)) then oc i = []
      else \<exists>x. oc i = [((adm @ [g]) ! i, x)] \<and> i < length (result (admit g s)) \<and> result (admit g s) ! i = Some x"
    unfolding k' using res kc nth by (simp add: admit_def)
  show ?thesis
    unfolding core_def
    using len le 3 ms dist 6 7 fresh rlen nr pending
    by (simp add: k') (simp add: admit_def)
qed

lemma length_array_set: "length (array_set xs i v) = max (length xs) (Suc i)"
  by (simp add: array_set_def)

lemma nth_array_set_same: "array_set xs i v ! i = Some v"
  by (simp add: array_set_def nth_append)

lemma nth_array_set_other: "j < length xs \<Longrightarrow> j \<noteq> i \<Longrightarrow> array_set xs i v ! j = xs ! j"
  by (simp add: array_set_def nth_append)

lemma core_running_mem:
  assumes c: "core adm oc s" and m: "(p, j) \<in> set (continuations s)"
  shows "p \<in> set (running s)" and "\<not> isResolved s"
proof -
  from c have ms: "mset (running s) = mset (map fst (continuations s))"
    and settled: "isResolved s \<longrightarrow> running s = []"
    unfolding core_def by blast+
  from m have "p \<in> set (map fst (continuations s))"
    by force
  then have "p \<in># mset (map fst (continuations s))"
    by (simp only: set_mset_mset)
  with ms show p: "p \<in> set (running s)"
    by (metis set_mset_mset)
  with settled show "\<not> isResolved s"
    by auto
qed

lemma distinct_map_remove1: "distinct (map f xs) \<Longrightarrow> distinct (map f (remove1 x xs))"
proof (induction xs)
  case Nil
  then show ?case by simp
next
  case (Cons y ys)
  have "set (remove1 x ys) \<subseteq> set ys"
    by (rule set_remove1_subset)
  with Cons show ?case
    by auto
qed

lemma core_settle:
  assumes c: "core adm oc s" and m: "(p, j) \<in> set (continuations s)"
  shows "core adm (oc(j := [(p, x)]))
           (settle_task p j x (s\<lparr>continuations := remove1 (p, j) (continuations s)\<rparr>))"
proof -
  let ?k = "launched_upto s"
  let ?s' = "settle_task p j x (s\<lparr>continuations := remove1 (p, j) (continuations s)\<rparr>)"
  let ?oc = "oc(j := [(p, x)])"
  from c have len: "length adm = currentIndex s" and le: "length (enqueued s) \<le> currentIndex s"
    and q: "enqueued s = map (\<lambda>i. \<lparr>generator = adm ! i, index = i\<rparr>) [?k ..< currentIndex s]"
    and ms: "mset (running s) = mset (map fst (continuations s))"
    and dist: "distinct (map snd (continuations s))"
    and cont: "\<forall>(p, i) \<in> set (continuations s). i < ?k \<and> p = adm ! i"
    and res: "\<forall>i < ?k. if i \<in> snd ` set (continuations s) then oc i = []
        else \<exists>x. oc i = [(adm ! i, x)] \<and> i < length (result s) \<and> result s ! i = Some x"
    and fresh: "\<forall>i \<ge> ?k. oc i = []"
    and rlen: "length (result s) \<le> ?k"
    and pending: "\<not> isResolved s \<longrightarrow> promise s = Pending"
    unfolding core_def by blast+
  from core_running_mem[OF c m] have pr: "p \<in> set (running s)" and nr: "\<not> isResolved s" .
  from cont m have jk: "j < ?k" and pj: "p = adm ! j"
    by auto
  have f: "currentIndex ?s' = currentIndex s" "enqueued ?s' = enqueued s"
    "running ?s' = remove1 p (running s)" "result ?s' = array_set (result s) j x"
    "continuations ?s' = remove1 (p, j) (continuations s)"
    "isResolved ?s' = isResolved s" "promise ?s' = promise s" "isClosed ?s' = isClosed s"
    by (simp_all add: settle_task_def)
  have k': "launched_upto ?s' = ?k"
    by (simp add: launched_upto_def f)
  have "mset (map fst (remove1 (p, j) (continuations s))) = mset (map fst (continuations s)) - {#p#}"
    using m by (simp add: image_mset_Diff)
  then have 4: "mset (running ?s') = mset (map fst (continuations ?s'))"
    using ms by (simp add: f)
  have 5: "distinct (map snd (continuations ?s'))"
    using dist by (simp add: f distinct_map_remove1)
  have 6: "\<forall>(p, i) \<in> set (continuations ?s'). i < launched_upto ?s' \<and> p = adm ! i"
    unfolding k' f using cont by (auto dest: notin_set_remove1)
  have notj: "j \<notin> snd ` set (remove1 (p, j) (continuations s))"
  proof
    assume "j \<in> snd ` set (remove1 (p, j) (continuations s))"
    then obtain p' where p': "(p', j) \<in> set (remove1 (p, j) (continuations s))"
      by force
    then have in': "(p', j) \<in> set (continuations s)"
      using set_remove1_subset[of "(p, j)" "continuations s"] by blast
    from dist have "inj_on snd (set (continuations s))"
      by (simp add: distinct_map)
    from inj_onD[OF this _ in' m] have "p' = p"
      by simp
    moreover from dist have "distinct (continuations s)"
      by (simp add: distinct_map)
    ultimately show False
      using p' by simp
  qed
  have others: "\<And>i. i \<noteq> j \<Longrightarrow>
      i \<in> snd ` set (remove1 (p, j) (continuations s)) \<longleftrightarrow> i \<in> snd ` set (continuations s)"
  proof -
    fix i assume "i \<noteq> j"
    from dist have "distinct (continuations s)"
      by (simp add: distinct_map)
    then have "set (remove1 (p, j) (continuations s)) = set (continuations s) - {(p, j)}"
      by simp
    with \<open>i \<noteq> j\<close> show "i \<in> snd ` set (remove1 (p, j) (continuations s)) \<longleftrightarrow> i \<in> snd ` set (continuations s)"
      by force
  qed
  have 7: "\<forall>i < launched_upto ?s'.
      if i \<in> snd ` set (continuations ?s') then ?oc i = []
      else \<exists>y. ?oc i = [(adm ! i, y)] \<and> i < length (result ?s') \<and> result ?s' ! i = Some y"
  proof (intro allI impI)
    fix i assume "i < launched_upto ?s'"
    then have ik: "i < ?k" by (simp add: k')
    show "if i \<in> snd ` set (continuations ?s') then ?oc i = []
      else \<exists>y. ?oc i = [(adm ! i, y)] \<and> i < length (result ?s') \<and> result ?s' ! i = Some y"
    proof (cases "i = j")
      case True
      show ?thesis
        unfolding f using True notj pj
        by (simp add: length_array_set nth_array_set_same)
    next
      case False
      show ?thesis
      proof (cases "i \<in> snd ` set (continuations s)")
        case True
        with res[rule_format, OF ik] have "oc i = []" by simp
        with True False others[OF False] show ?thesis
          unfolding f by simp
      next
        case notin: False
        with res[rule_format, OF ik] obtain y where y: "oc i = [(adm ! i, y)]" "i < length (result s)" "result s ! i = Some y"
          by auto
        with notin False others[OF False] show ?thesis
          unfolding f by (simp add: length_array_set nth_array_set_other)
      qed
    qed
  qed
  have 8: "\<forall>i \<ge> launched_upto ?s'. ?oc i = []"
    unfolding k' using fresh jk by auto
  have 9: "length (result ?s') \<le> launched_upto ?s'"
    unfolding k' using rlen jk by (simp add: f length_array_set)
  show ?thesis
    unfolding core_def
    using len le q 4 5 6 7 8 9 nr pending
    by (simp add: k' f(1,2,6,7))
qed

lemma core_resolve:
  assumes c: "core adm oc s" and e: "running s = []" "enqueued s = []" "isClosed s"
  shows "core adm oc (resolve_promise (result s) (s\<lparr>isResolved := True\<rparr>))"
proof (cases "isResolved s")
  case True
  with c have "promise s = Fulfilled (result s)"
    unfolding core_def by blast
  with True have "resolve_promise (result s) (s\<lparr>isResolved := True\<rparr>) = s"
    by (simp add: resolve_promise_def)
  with c show ?thesis by simp
next
  case False
  with c have "promise s = Pending"
    unfolding core_def by blast
  then have eq: "resolve_promise (result s) (s\<lparr>isResolved := True\<rparr>)
      = s\<lparr>isResolved := True, promise := Fulfilled (result s)\<rparr>"
    by (simp add: resolve_promise_def)
  from c e show ?thesis
    unfolding eq core_def by (simp add: launched_upto_def)
qed

lemma core_runNext: "core adm oc s \<Longrightarrow> core adm oc (runNext s)"
proof (cases s rule: runNext_cases)
  case same
  assume "core adm oc s"
  with same show ?thesis by simp
next
  case (launch n)
  assume "core adm oc s"
  then have "core adm oc (launched n s)"
    unfolding launch(3) by (rule core_launched) (rule launches_le)
  with launch(4) show ?thesis by auto
next
  case resolve
  assume "core adm oc s"
  with resolve show ?thesis by (simp add: core_resolve)
next
  case available
  assume "core adm oc s"
  with available(4) show ?thesis by simp
qed

lemma life_runNext:
  assumes "isClosed s \<longrightarrow> isStarted s"
  shows "life (runNext s)"
proof (cases "isStarted s")
  case False
  with assms show ?thesis
    by (simp add: runNext_eq life_def)
next
  case started: True
  show ?thesis
  proof (cases "enqueued s = []")
    case True
    with started show ?thesis
      by (simp add: runNext_eq life_def resolve_promise_def)
  next
    case False
    let ?n = "launches (pool_size s) (length (running s)) (length (enqueued s))"
    have "life (launched ?n s)"
      using started False launches_exhaust[of "pool_size s" "length (running s)" "length (enqueued s)"]
      by (auto simp: life_def launched_fields)
    with started False show ?thesis
      by (simp add: runNext_eq Let_def)
  qed
qed

lemma opt_rejectOnError_cong: "options s' = options s \<Longrightarrow> opt_rejectOnError s' = opt_rejectOnError s"
  by (simp add: opt_rejectOnError_def)

lemma core_start: "core adm oc s \<Longrightarrow> core adm oc (start s)"
  unfolding start_def by (rule core_runNext) simp

lemma life_start: "life (start s)"
  unfolding start_def by (rule life_runNext) simp

lemma core_close: "core adm oc s \<Longrightarrow> core adm oc (close s)"
  unfolding close_def by (rule core_start) (simp add: core_def launched_upto_def)

lemma life_close: "life (close s)"
  unfolding close_def by (rule life_start)

lemma admits_eq: "admits (CallEnqueue g) s = (if isClosed s \<or> isResolved s then [] else [g])"
  by (simp add: admits.simps(1) enqueue_def Let_def)

lemma core_enqueue_step:
  assumes "core adm oc s"
  shows "core (adm @ admits (CallEnqueue g) s) oc (enqueue_step g s)"
proof (cases "isClosed s \<or> isResolved s")
  case True
  with assms show ?thesis
    by (simp add: admits_eq enqueue_step_eq)
next
  case False
  with assms have "core (adm @ [g]) oc (admit g s)"
    by (simp add: core_admit)
  with False show ?thesis
    by (simp add: admits_eq enqueue_step_eq core_start core_runNext)
qed

lemma life_enqueue_step:
  assumes "life s"
  shows "life (enqueue_step g s)"
proof (cases "isClosed s \<or> isResolved s")
  case True
  with assms show ?thesis
    by (simp add: enqueue_step_eq)
next
  case False
  then have "life (runNext (admit g s))"
    by (intro life_runNext) (simp add: admit_def)
  with False show ?thesis
    by (simp add: enqueue_step_eq life_start)
qed

lemma core_completion:
  assumes "core adm oc s" and "(p, j) \<in> set (continuations s)"
  shows "core adm (oc(j := [(p, x)]))
     (runNext (emit EvNext (settle_task p j x (s\<lparr>continuations := remove1 (p, j) (continuations s)\<rparr>))))"
  using core_settle[OF assms] by (intro core_runNext) simp

lemma life_completion:
  assumes "life s"
  shows "life (runNext (emit EvNext (settle_task p j x s)))"
  using assms by (intro life_runNext) (simp add: life_def settle_task_def)

lemma core_pending:
  assumes "core adm oc s" and "(p, j) \<in> set (continuations s)"
  shows "oc j = []"
proof -
  from assms have "j < launched_upto s" and "j \<in> snd ` set (continuations s)"
    unfolding core_def by force+
  with assms(1) show ?thesis
    unfolding core_def by meson
qed

text \<open>Accumulate mode: the invariant through one step, whether a continuation throws or not.\<close>

lemma core_step:
  assumes c: "core adm oc s" and r: "\<not> opt_rejectOnError s" and st: "step a s = Some s'"
  shows "core (adm @ admits a s) (\<lambda>i. oc i @ completions [a] i) s'"
proof (cases a)
  case CallStart
  with c st show ?thesis
    by (auto simp: core_start)
next
  case (CallEnqueue g)
  with st have "s' = enqueue_step g s"
    by (simp add: enqueue_step_def)
  with core_enqueue_step[OF c, of g] CallEnqueue show ?thesis
    by simp
next
  case CallClose
  with c st show ?thesis
    by (auto simp: core_close)
next
  case (CallOn t cb)
  with c st show ?thesis
    by (auto simp: on_def)
next
  case (CallOnce t cb)
  with c st show ?thesis
    by (auto simp: once_def)
next
  case (Fulfils p j v)
  with st have m: "(p, j) \<in> set (continuations s)"
    by (simp split: if_splits)
  let ?s1 = "s\<lparr>continuations := remove1 (p, j) (continuations s)\<rparr>"
  from core_running_mem[OF c m] have "p \<in> set (running ?s1)" "\<not> isResolved ?s1"
    by simp_all
  with st Fulfils m have s': "s' = runNext (emit EvNext (settle_task p j (Value v) ?s1))"
    by (simp add: promiseDone_eq)
  from core_pending[OF c m] have "(\<lambda>i. oc i @ completions [a] i) = oc(j := [(p, Value v)])"
    using Fulfils by (auto simp: fun_eq_iff)
  with core_completion[OF c m, of "Value v"] s' Fulfils show ?thesis
    by simp
next
  case (Rejects p j e)
  let ?s1 = "s\<lparr>continuations := remove1 (p, j) (continuations s)\<rparr>"
  let ?x = "PoolErrorImpl (rejection_message j) e"
  from st Rejects have m: "(p, j) \<in> set (continuations s)" and s': "s' = rejected_step p e j ?s1"
    by (simp_all add: step_Rejects del: step.simps)
  from r have r1: "\<not> opt_rejectOnError ?s1"
    by (simp add: opt_rejectOnError_def)
  from core_running_mem[OF c m] have run: "p \<in> set (running ?s1)" "\<not> isResolved ?s1"
    by simp_all
  from core_pending[OF c m] have oc: "(\<lambda>i. oc i @ completions [a] i) = oc(j := [(p, ?x)])"
    using Rejects by (auto simp: fun_eq_iff)
  show ?thesis
  proof (cases "isl (console_error_argument e)")
    case True
    with run r1 have "s' = settle_task p j ?x ?s1"
      by (simp add: s' rejected_step_eq)
    with core_settle[OF c m, of ?x] oc Rejects show ?thesis
      by simp
  next
    case False
    with run r1 have "s' = runNext (emit EvNext (settle_task p j ?x ?s1))"
      by (simp add: s' rejected_step_eq)
    with core_completion[OF c m, of ?x] oc Rejects show ?thesis
      by simp
  qed
qed

text \<open>The lifecycle invariant holds through every step whose continuation returns.\<close>

lemma life_step:
  assumes l: "life s" and r: "\<not> opt_rejectOnError s" and pr: "prints a"
    and st: "step a s = Some s'"
  shows "life s'"
proof (cases a)
  case CallStart
  with st show ?thesis
    by (auto simp: life_start)
next
  case (CallEnqueue g)
  with st have "s' = enqueue_step g s"
    by (simp add: enqueue_step_def)
  with life_enqueue_step[OF l, of g] show ?thesis
    by simp
next
  case CallClose
  with st show ?thesis
    by (auto simp: life_close)
next
  case (CallOn t cb)
  with l st show ?thesis
    by (auto simp: on_def)
next
  case (CallOnce t cb)
  with l st show ?thesis
    by (auto simp: once_def)
next
  case (Fulfils p j v)
  let ?s1 = "s\<lparr>continuations := remove1 (p, j) (continuations s)\<rparr>"
  from st Fulfils have s': "s' = promiseDone p v j ?s1"
    by (simp split: if_splits)
  from l have l1: "life ?s1"
    by (simp add: life_def)
  with life_completion[OF l1, of p j "Value v"] show ?thesis
    by (simp add: s' promiseDone_eq)
next
  case (Rejects p j e)
  let ?s1 = "s\<lparr>continuations := remove1 (p, j) (continuations s)\<rparr>"
  let ?x = "PoolErrorImpl (rejection_message j) e"
  from st Rejects have s': "s' = rejected_step p e j ?s1"
    by (simp add: step_Rejects del: step.simps)
  from r have r1: "\<not> opt_rejectOnError ?s1"
    by (simp add: opt_rejectOnError_def)
  from pr Rejects have "\<not> isl (console_error_argument e)"
    by simp
  moreover from l have l1: "life ?s1"
    by (simp add: life_def)
  ultimately show ?thesis
    using life_completion[OF l1, of p j ?x] r1 by (simp add: s' rejected_step_eq)
qed

lemma core_new: "core [] (\<lambda>i. []) (new_PromisePool opts)"
  by (simp add: core_def launched_upto_def new_PromisePool_def)

lemma life_new: "life (new_PromisePool opts)"
  by (simp add: life_def new_PromisePool_def)

lemma accumulate_new:
  "Option.bind opts rejectOnError \<noteq> Some True \<Longrightarrow> \<not> opt_rejectOnError (new_PromisePool opts)"
  by (cases "Option.bind opts rejectOnError") (auto simp: new_PromisePool_def opt_rejectOnError_def)

lemma opt_rejectOnError_step: "step a s = Some s' \<Longrightarrow> opt_rejectOnError s' = opt_rejectOnError s"
  by (rule opt_rejectOnError_cong) (rule options_step)

lemma opt_rejectOnError_run: "exec as s0 = Some s \<Longrightarrow> opt_rejectOnError s = opt_rejectOnError s0"
  by (induction as arbitrary: s0) (auto split: option.splits dest: opt_rejectOnError_step)

lemma core_run:
  assumes "core [] (\<lambda>i. []) s0" and "\<not> opt_rejectOnError s0" and "exec as s0 = Some s"
  shows "core (admitted as s0) (completions as) s"
  using assms(3)
proof (induction as arbitrary: s rule: rev_induct)
  case Nil
  with assms(1) show ?case by simp
next
  case (snoc a as)
  from snoc.prems obtain s1 where s1: "exec as s0 = Some s1" and st: "step a s1 = Some s"
    by (auto simp: exec_append split: option.splits)
  from snoc.IH[OF s1] have c1: "core (admitted as s0) (completions as) s1" .
  from opt_rejectOnError_run[OF s1] assms(2) have "\<not> opt_rejectOnError s1"
    by simp
  from core_step[OF c1 this st]
  have "core (admitted as s0 @ admits a s1) (\<lambda>i. completions as i @ completions [a] i) s" .
  moreover have "admitted (as @ [a]) s0 = admitted as s0 @ admits a s1"
    using admitted_snoc[OF s1, of a] st by simp
  moreover have "completions (as @ [a]) = (\<lambda>i. completions as i @ completions [a] i)"
    by (rule ext) (rule completions_snoc)
  ultimately show ?case by simp
qed

lemma life_run:
  assumes "life s0" and "\<not> opt_rejectOnError s0" and "list_all prints as" and "exec as s0 = Some s"
  shows "life s"
  using assms
proof (induction as arbitrary: s0)
  case Nil
  then show ?case by simp
next
  case (Cons a as)
  from Cons.prems(4) obtain s1 where s1: "step a s0 = Some s1" "exec as s1 = Some s"
    by (auto split: option.splits)
  from Cons.prems(3) have p: "prints a" "list_all prints as"
    by simp_all
  from life_step[OF Cons.prems(1,2) p(1) s1(1)] have "life s1" .
  moreover from opt_rejectOnError_step[OF s1(1)] Cons.prems(2) have "\<not> opt_rejectOnError s1"
    by simp
  ultimately show ?case
    using p(2) s1(2) by (rule Cons.IH)
qed

lemma core_fulfilled:
  assumes c: "core adm oc s" and f: "promise s = Fulfilled r"
  shows "r = result s" and "length r = length adm"
    and "\<forall>i < length r. \<exists>x. oc i = [(adm ! i, x)] \<and> r ! i = Some x"
    and "\<forall>i \<ge> length r. oc i = []"
proof -
  let ?k = "launched_upto s"
  from c f have res: "isResolved s"
    unfolding core_def by (metis settlement.distinct(1))
  with c have e: "running s = []" "enqueued s = []" and r: "promise s = Fulfilled (result s)"
    unfolding core_def by blast+
  from r f show r_eq: "r = result s" by simp
  from c e have "mset (map fst (continuations s)) = {#}"
    unfolding core_def by (metis mset.simps(1))
  then have conts: "continuations s = []" by simp
  from e have k: "?k = currentIndex s" by (simp add: launched_upto_def)
  from c have len: "length adm = currentIndex s"
    and rlen: "length (result s) \<le> ?k"
    and slots: "\<forall>i < ?k. if i \<in> snd ` set (continuations s) then oc i = []
        else \<exists>x. oc i = [(adm ! i, x)] \<and> i < length (result s) \<and> result s ! i = Some x"
    and fresh: "\<forall>i \<ge> ?k. oc i = []"
    unfolding core_def by blast+
  have all: "\<And>i. i < ?k \<Longrightarrow> \<exists>x. oc i = [(adm ! i, x)] \<and> i < length (result s) \<and> result s ! i = Some x"
    using slots[rule_format] conts by simp
  have "?k \<le> length (result s)"
  proof (rule ccontr)
    assume "\<not> ?k \<le> length (result s)"
    then have "length (result s) < ?k" by simp
    from all[OF this] show False by simp
  qed
  with rlen have lr: "length (result s) = ?k" by simp
  with k len r_eq show "length r = length adm" by simp
  from all lr r_eq show "\<forall>i < length r. \<exists>x. oc i = [(adm ! i, x)] \<and> r ! i = Some x"
    by auto
  from fresh lr r_eq show "\<forall>i \<ge> length r. oc i = []" by simp
qed

lemma completions_mem:
  "completion a = Some (i, p, x) \<Longrightarrow> a \<in> set as \<Longrightarrow> (p, x) \<in> set (completions as i)"
  by (induction as) auto

lemma completions_memD:
  "(p, x) \<in> set (completions as i) \<Longrightarrow> \<exists>a \<in> set as. completion a = Some (i, p, x)"
  by (induction as) (auto split: option.splits if_splits)

lemma accumulate_progress:
  assumes core: "core adm oc s" and l: "life s" and cap: "length_lt 0 (pool_size s)"
    and c: "isClosed s" and p: "promise s = Pending"
  shows "continuations s \<noteq> []"
proof
  assume e: "continuations s = []"
  from core e have "mset (running s) = {#}"
    unfolding core_def by simp
  then have r: "running s = []" by simp
  from core p have nr: "\<not> isResolved s"
    unfolding core_def by auto
  with l c r have q: "enqueued s \<noteq> []" and st: "isStarted s"
    by (auto simp: life_def)
  with l r cap show False
    by (simp add: life_def)
qed

lemma completion_cases:
  "completion a = Some (i, p, x) \<Longrightarrow>
     (\<exists>v. a = Fulfils p i v \<and> x = Value v) \<or>
     (\<exists>e. a = Rejects p i e \<and> x = PoolErrorImpl (rejection_message i) e)"
  by (cases a) auto

subsection \<open>The close event\<close>

lemma emit_loop_calls:
  "calls (emit_loop t es s) = calls s @ map (\<lambda>kv. (t, fst kv)) es"
  by (induction t es s rule: emit_loop.induct) (simp_all add: Let_def)

lemma calls_emit:
  "calls (emit t s) = calls s @ map (\<lambda>kv. (t, fst kv)) (case listeners s t of None \<Rightarrow> [] | Some m \<Rightarrow> m)"
  by (simp add: emit_def Let_def emit_loop_calls split: option.splits)

lemma quiet_close_emit: "t \<noteq> EvClose \<Longrightarrow> quiet_close s \<Longrightarrow> quiet_close (emit t s)"
  by (auto simp: quiet_close_def calls_emit)

lemma quiet_close_cong:
  "emitted s' = emitted s \<Longrightarrow> calls s' = calls s \<Longrightarrow> quiet_close s' = quiet_close s"
  by (simp add: quiet_close_def)

lemma quiet_close_runNext: "quiet_close s \<Longrightarrow> quiet_close (runNext s)"
proof (cases s rule: runNext_cases)
  case same
  assume "quiet_close s"
  with same show ?thesis by simp
next
  case (launch n)
  assume "quiet_close s"
  then have l: "quiet_close (launched n s)"
    by (simp add: quiet_close_cong[of "launched n s" s])
  then have "quiet_close (emit EvFull (launched n s))"
    by (intro quiet_close_emit) simp_all
  with l launch(4) show ?thesis by auto
next
  case resolve
  assume "quiet_close s"
  with resolve(5) show ?thesis
    by (simp add: quiet_close_def resolve_promise_def)
next
  case available
  assume "quiet_close s"
  with available(4) show ?thesis
    by (simp add: quiet_close_emit)
qed

lemma quiet_close_start:
  assumes "quiet_close s"
  shows "quiet_close (start s)"
proof -
  from assms have "quiet_close (emit EvStart s)"
    by (intro quiet_close_emit) simp_all
  then have "quiet_close ((emit EvStart s)\<lparr>isStarted := True\<rparr>)"
    by (simp add: quiet_close_def)
  with assms show ?thesis
    unfolding start_def by (intro quiet_close_runNext) simp
qed

lemma quiet_close_close: "quiet_close s \<Longrightarrow> quiet_close (close s)"
  unfolding close_def
  by (rule quiet_close_start) (simp add: quiet_close_def)

lemma quiet_close_enqueue_step: "quiet_close s \<Longrightarrow> quiet_close (enqueue_step g s)"
  by (auto simp: enqueue_step_eq intro!: quiet_close_start quiet_close_runNext)
     (simp_all add: quiet_close_def admit_def)

lemma quiet_close_completion:
  "quiet_close s \<Longrightarrow> quiet_close (runNext (emit EvNext (settle_task p i x s)))"
  by (intro quiet_close_runNext quiet_close_emit) (simp_all add: quiet_close_def settle_task_def)

lemma quiet_close_step: "quiet_close s \<Longrightarrow> step a s = Some s' \<Longrightarrow> quiet_close s'"
proof (cases a)
  case (CallEnqueue g)
  assume "quiet_close s" "step a s = Some s'"
  with quiet_close_enqueue_step[of s g] CallEnqueue show ?thesis
    by (simp add: enqueue_step_def)
next
  case (Fulfils p i v)
  let ?s1 = "s\<lparr>continuations := remove1 (p, i) (continuations s)\<rparr>"
  assume q: "quiet_close s" and "step a s = Some s'"
  with Fulfils have s': "s' = promiseDone p v i ?s1"
    by (simp split: if_splits)
  from q have "quiet_close ?s1"
    by (simp add: quiet_close_def)
  with quiet_close_completion[of ?s1 p i "Value v"] show ?thesis
    unfolding s' by (simp add: promiseDone_eq)
next
  case (Rejects p i e)
  let ?s1 = "s\<lparr>continuations := remove1 (p, i) (continuations s)\<rparr>"
  let ?x = "PoolErrorImpl (rejection_message i) e"
  assume q: "quiet_close s" and "step a s = Some s'"
  with Rejects have s': "s' = rejected_step p e i ?s1"
    by (simp add: step_Rejects del: step.simps)
  from q have q1: "quiet_close ?s1"
    by (simp add: quiet_close_def)
  then have "quiet_close (reject_promise e ((settle_task p i ?x ?s1)\<lparr>isResolved := True\<rparr>))"
    "quiet_close (settle_task p i ?x ?s1)"
    by (simp_all add: quiet_close_def reject_promise_def settle_task_def)
  with q1 quiet_close_completion[of ?s1 p i ?x] show ?thesis
    unfolding s' by (simp add: rejected_step_eq)
qed (auto simp: quiet_close_start quiet_close_close on_def once_def
      quiet_close_cong[of "listeners_set _ _ _ _"])

lemma close_never_emitted:
  assumes "exec as (new_PromisePool opts) = Some s"
  shows "EvClose \<notin> set (emitted s)" and "\<forall>cb. (EvClose, cb) \<notin> set (calls s)"
proof -
  have "quiet_close (new_PromisePool opts :: js_value PromisePool)"
    by (simp add: quiet_close_def new_PromisePool_def)
  with quiet_close_step have q: "quiet_close s"
    using assms by (rule exec_invariant)
  then show "EvClose \<notin> set (emitted s)"
    by (simp add: quiet_close_def)
  from q show "\<forall>cb. (EvClose, cb) \<notin> set (calls s)"
    by (force simp: quiet_close_def)
qed

subsection \<open>Negative caps\<close>


lemma stalled_emit [simp]: "stalled (emit t s) = stalled s"
  by (simp add: stalled_def)








subsection \<open>Emissions of full and available\<close>

lemma emissions_emit: "emissions t (emit u s) = emissions t s @ (if u = t then [t] else [])"
  by (simp add: emissions_def)


lemma emissions_launched [simp]: "emissions t (launched n s) = emissions t s"
  by (simp add: emissions_def)

lemma emissions_full_runNext:
  assumes sz: "pool_size s = Num C" and pos: "0 < C" and le: "int (length (running s)) \<le> C"
  shows "emissions EvFull (runNext s) = emissions EvFull s @
           (if length (running s) < length (running (runNext s)) \<and>
               int (length (running (runNext s))) = C
            then [EvFull] else [])"
proof (cases "isStarted s \<and> enqueued s \<noteq> []")
  case True
  let ?n = "launches (pool_size s) (length (running s)) (length (enqueued s))"
  have n: "int (length (running s)) + int ?n \<le> C"
    using le by (simp add: launches_def sz)
  have r: "running (launched ?n s) = running s @ map generator (take ?n (enqueued s))"
    by (simp add: launched_fields)
  have ln: "length (running (launched ?n s)) = length (running s) + ?n"
    using launches_le[of "pool_size s" "length (running s)" "length (enqueued s)"]
    by (simp add: r)
  show ?thesis
  proof (cases "length_ge (length (running (launched ?n s))) (pool_size s) \<and> ?n \<noteq> 0")
    case full: True
    with True have "runNext s = emit EvFull (launched ?n s)"
      by (simp add: runNext_eq Let_def)
    with full n ln show ?thesis
      by (simp add: emissions_emit sz)
  next
    case False
    with True have "runNext s = launched ?n s"
      by (auto simp: runNext_eq Let_def)
    with False n ln show ?thesis
      by (auto simp: sz)
  qed
next
  case False
  then have "running (runNext s) = running s" "emissions EvFull (runNext s) = emissions EvFull s"
    by (auto simp: runNext_eq resolve_promise_def emissions_emit emissions_def)
  then show ?thesis by simp
qed

lemma emissions_full_enqueue_when_full:
  assumes sz: "pool_size s = Num C" and full: "int (length (running s)) = C"
    and e: "enqueue g s = Inr s'"
  shows "emissions EvFull s' = emissions EvFull s"
proof -
  from e have still_open: "\<not> isClosed s" "\<not> isResolved s"
    by (auto simp: enqueue_def Let_def split: if_splits)
  from e have s': "s' = enqueue_step g s"
    by (simp add: enqueue_step_def)
  have none: "launches (pool_size t) (length (running t)) q = 0"
    if "pool_size t = pool_size s" "running t = running s" for t :: "'a PromisePool" and q
    using that full by (simp add: launches_def sz)
  have pass: "emissions EvFull (runNext t) = emissions EvFull t"
    if "pool_size t = pool_size s" "running t = running s" "enqueued t \<noteq> []" for t :: "'a PromisePool"
    using that none[of t] by (simp add: runNext_eq Let_def)
  have a: "pool_size (admit g s) = pool_size s" "running (admit g s) = running s"
    "enqueued (admit g s) \<noteq> []" "emitted (admit g s) = emitted s"
    by (simp_all add: admit_def)
  show ?thesis
  proof (cases "opt_autoStart s \<and> \<not> isStarted s")
    case True
    let ?t = "(emit EvStart (admit g s))\<lparr>isStarted := True\<rparr>"
    from True still_open have "s' = runNext ?t"
      by (simp add: s' enqueue_step_eq start_def admit_def)
    moreover have "emissions EvFull (runNext ?t) = emissions EvFull ?t"
      by (rule pass) (simp_all add: a)
    moreover have "emissions EvFull ?t = emissions EvFull s"
      by (simp add: emissions_def a)
    ultimately show ?thesis by simp
  next
    case False
    with still_open have "s' = runNext (admit g s)"
      by (auto simp: s' enqueue_step_eq)
    moreover have "emissions EvFull (runNext (admit g s)) = emissions EvFull (admit g s)"
      by (rule pass) (simp_all add: a)
    ultimately show ?thesis
      by (simp add: emissions_def a)
  qed
qed

lemma enqueue_Inr:
  "\<not> isClosed s \<Longrightarrow> \<not> isResolved s \<Longrightarrow> enqueue g s = Inr (enqueue_step g s)"
  by (simp add: enqueue_step_def enqueue_def Let_def)



subsection \<open>Listener maps\<close>

lemma map_set_keys:
  "map fst (map_set m k v) = (if k \<in> fst ` set m then map fst m else map fst m @ [k])"
  by (induction m k v rule: map_set.induct) auto

lemma distinct_map_set: "distinct (map fst m) \<Longrightarrow> distinct (map fst (map_set m k v))"
  by (simp add: map_set_keys)


lemma distinct_map_delete: "distinct (map fst m) \<Longrightarrow> distinct (map fst (map_delete m k))"
  by (simp add: map_delete_def distinct_map_filter)

lemma wf_listeners_cong: "listeners s' = listeners s \<Longrightarrow> wf_listeners s' = wf_listeners s"
  by (simp add: wf_listeners_def)

lemma wf_listeners_emit_loop: "wf_listeners s \<Longrightarrow> wf_listeners (emit_loop t es s)"
proof (induction t es s rule: emit_loop.induct)
  case (1 t s)
  then show ?case by simp
next
  case (2 t cb once es s)
  have "wf_listeners (let s1 = s\<lparr>calls := calls s @ [(t, cb)]\<rparr>
        in if once
           then s1\<lparr>listeners := (listeners s1)(t := map_option (\<lambda>m. map_delete m cb) (listeners s1 t))\<rparr>
           else s1)"
    using "2.prems" by (auto simp: wf_listeners_def Let_def distinct_map_delete)
  then show ?case
    by (simp only: emit_loop.simps "2.IH")
qed

lemma wf_listeners_emit: "wf_listeners s \<Longrightarrow> wf_listeners (emit t s)"
proof -
  assume w: "wf_listeners s"
  then have "wf_listeners (s\<lparr>emitted := emitted s @ [t]\<rparr>)"
    by (simp add: wf_listeners_def)
  then show ?thesis
    by (simp add: emit_def Let_def wf_listeners_emit_loop split: option.splits)
qed

lemma wf_listeners_set: "wf_listeners s \<Longrightarrow> wf_listeners (listeners_set t cb b s)"
  by (auto simp: wf_listeners_def listeners_set_def distinct_map_set split: option.splits)

lemma wf_listeners_runNext: "wf_listeners s \<Longrightarrow> wf_listeners (runNext s)"
proof (cases s rule: runNext_cases)
  case same
  assume "wf_listeners s"
  with same show ?thesis by simp
next
  case (launch n)
  assume "wf_listeners s"
  then have l: "wf_listeners (launched n s)"
    by (simp add: wf_listeners_cong[of "launched n s" s])
  with launch(4) show ?thesis
    by (auto simp: wf_listeners_emit)
next
  case resolve
  assume "wf_listeners s"
  with resolve(5) show ?thesis
    by (simp add: wf_listeners_def resolve_promise_def)
next
  case available
  assume "wf_listeners s"
  with available(4) show ?thesis
    by (simp add: wf_listeners_emit)
qed

lemma wf_listeners_start:
  assumes "wf_listeners s"
  shows "wf_listeners (start s)"
proof -
  from assms have "wf_listeners (emit EvStart s)"
    by (rule wf_listeners_emit)
  then have "wf_listeners ((emit EvStart s)\<lparr>isStarted := True\<rparr>)"
    by (simp add: wf_listeners_def)
  with assms show ?thesis
    unfolding start_def by (intro wf_listeners_runNext) simp
qed

lemma wf_listeners_close: "wf_listeners s \<Longrightarrow> wf_listeners (close s)"
  unfolding close_def
  by (rule wf_listeners_start) (simp add: wf_listeners_def)

lemma wf_listeners_enqueue_step: "wf_listeners s \<Longrightarrow> wf_listeners (enqueue_step g s)"
  by (auto simp: enqueue_step_eq intro!: wf_listeners_start wf_listeners_runNext)
     (simp_all add: wf_listeners_def admit_def)

lemma wf_listeners_completion:
  "wf_listeners s \<Longrightarrow> wf_listeners (runNext (emit EvNext (settle_task p i x s)))"
  by (intro wf_listeners_runNext wf_listeners_emit) (simp add: wf_listeners_def settle_task_def)

lemma wf_listeners_step: "wf_listeners s \<Longrightarrow> step a s = Some s' \<Longrightarrow> wf_listeners s'"
proof (cases a)
  case (CallEnqueue g)
  assume "wf_listeners s" "step a s = Some s'"
  with wf_listeners_enqueue_step[of s g] CallEnqueue show ?thesis
    by (simp add: enqueue_step_def)
next
  case (Fulfils p i v)
  let ?s1 = "s\<lparr>continuations := remove1 (p, i) (continuations s)\<rparr>"
  assume q: "wf_listeners s" and "step a s = Some s'"
  with Fulfils have s': "s' = promiseDone p v i ?s1"
    by (simp split: if_splits)
  from q have "wf_listeners ?s1"
    by (simp add: wf_listeners_def)
  with wf_listeners_completion[of ?s1 p i "Value v"] show ?thesis
    unfolding s' by (simp add: promiseDone_eq)
next
  case (Rejects p i e)
  let ?s1 = "s\<lparr>continuations := remove1 (p, i) (continuations s)\<rparr>"
  let ?x = "PoolErrorImpl (rejection_message i) e"
  assume q: "wf_listeners s" and "step a s = Some s'"
  with Rejects have s': "s' = rejected_step p e i ?s1"
    by (simp add: step_Rejects del: step.simps)
  from q have q1: "wf_listeners ?s1"
    by (simp add: wf_listeners_def)
  then have "wf_listeners (reject_promise e ((settle_task p i ?x ?s1)\<lparr>isResolved := True\<rparr>))"
    "wf_listeners (settle_task p i ?x ?s1)"
    by (simp_all add: wf_listeners_def reject_promise_def settle_task_def)
  with q1 wf_listeners_completion[of ?s1 p i ?x] show ?thesis
    unfolding s' by (simp add: rejected_step_eq)
qed (auto simp: wf_listeners_start wf_listeners_close wf_listeners_set on_def once_def)



subsection \<open>Pending continuations\<close>

lemma tracked_emit [simp]: "tracked (emit t s) = tracked s"
  by (simp add: tracked_def)

lemma tracked_listeners_set [simp]: "tracked (listeners_set t cb b s) = tracked s"
  by (simp add: tracked_def)

lemma tracked_launched: "tracked s \<Longrightarrow> tracked (launched n s)"
  by (simp add: tracked_def launched_fields o_def)

lemma tracked_runNext: "tracked s \<Longrightarrow> tracked (runNext s)"
proof (cases s rule: runNext_cases)
  case same
  assume "tracked s"
  with same show ?thesis by simp
next
  case (launch n)
  assume "tracked s"
  then have "tracked (launched n s)" by (rule tracked_launched)
  with launch(4) show ?thesis by auto
next
  case resolve
  assume "tracked s"
  with resolve(5) show ?thesis
    by (simp add: tracked_def resolve_promise_def)
next
  case available
  assume "tracked s"
  with available(4) show ?thesis by simp
qed

lemma tracked_start: "tracked s \<Longrightarrow> tracked (start s)"
  unfolding start_def by (rule tracked_runNext) (simp add: tracked_def)

lemma tracked_close: "tracked s \<Longrightarrow> tracked (close s)"
  unfolding close_def by (rule tracked_start) (simp add: tracked_def)

lemma tracked_enqueue_step: "tracked s \<Longrightarrow> tracked (enqueue_step g s)"
  by (auto simp: enqueue_step_eq intro!: tracked_start tracked_runNext)
     (simp_all add: tracked_def admit_def)

lemma tracked_forget:
  assumes "tracked s"
  shows "tracked (s\<lparr>continuations := remove1 c (continuations s)\<rparr>)"
proof -
  have "mset (map fst (remove1 c (continuations s))) \<subseteq># mset (map fst (continuations s))"
    by (cases "c \<in> set (continuations s)") (simp_all add: image_mset_Diff)
  with assms show ?thesis
    by (auto simp: tracked_def intro: subset_mset.order_trans)
qed

lemma mset_diff_mono: "A \<subseteq># B \<Longrightarrow> A - C \<subseteq># B - C"
  by (simp add: subseteq_mset_def diff_le_mono)

lemma tracked_settle:
  assumes "tracked s" and "(p, i) \<in> set (continuations s)"
  shows "tracked (settle_task p i x (s\<lparr>continuations := remove1 (p, i) (continuations s)\<rparr>))"
proof -
  have "mset (map fst (remove1 (p, i) (continuations s))) = mset (map fst (continuations s)) - {#p#}"
    using assms(2) by (simp add: image_mset_Diff)
  moreover have "mset (remove1 p (running s)) = mset (running s) - {#p#}"
    by simp
  ultimately show ?thesis
    using assms(1) by (simp add: tracked_def settle_task_def mset_diff_mono del: mset_remove1)
qed

lemma tracked_step: "tracked s \<Longrightarrow> step a s = Some s' \<Longrightarrow> tracked s'"
proof (cases a)
  case (CallEnqueue g)
  assume "tracked s" "step a s = Some s'"
  with tracked_enqueue_step[of s g] CallEnqueue show ?thesis
    by (simp add: enqueue_step_def)
next
  case (Fulfils p i v)
  let ?s1 = "s\<lparr>continuations := remove1 (p, i) (continuations s)\<rparr>"
  assume t: "tracked s" and st: "step a s = Some s'"
  with Fulfils have m: "(p, i) \<in> set (continuations s)" and s': "s' = promiseDone p v i ?s1"
    by (simp_all split: if_splits)
  from tracked_settle[OF t m, of "Value v"] tracked_forget[OF t, of "(p, i)"] show ?thesis
    by (simp add: s' promiseDone_eq tracked_runNext)
next
  case (Rejects p i e)
  let ?s1 = "s\<lparr>continuations := remove1 (p, i) (continuations s)\<rparr>"
  let ?x = "PoolErrorImpl (rejection_message i) e"
  assume t: "tracked s" and st: "step a s = Some s'"
  with Rejects have m: "(p, i) \<in> set (continuations s)" and s': "s' = rejected_step p e i ?s1"
    by (simp_all add: step_Rejects del: step.simps)
  from tracked_settle[OF t m, of ?x] have "tracked (settle_task p i ?x ?s1)" .
  moreover from this have "tracked (reject_promise e ((settle_task p i ?x ?s1)\<lparr>isResolved := True\<rparr>))"
    by (simp add: tracked_def reject_promise_def)
  ultimately show ?thesis
    using tracked_forget[OF t, of "(p, i)"] by (simp add: s' rejected_step_eq tracked_runNext)
qed (auto simp: tracked_start tracked_close on_def once_def)

lemma tracked_new: "tracked (new_PromisePool opts)"
  by (simp add: tracked_def new_PromisePool_def)

lemma tracked_length: "tracked s \<Longrightarrow> length (continuations s) \<le> length (running s)"
  unfolding tracked_def using size_mset_mono[of "mset (map fst (continuations s))" "mset (running s)"]
  by simp

subsection \<open>Fail-fast and accumulate mode\<close>

text \<open>
  Fail-fast mode: the failure of a running task, in a pool that has not settled, rejects
  the result promise with the cause and settles the pool; the call itself launches
  nothing and emits nothing.
\<close>

lemma failfast_failure_rejects:
  assumes "opt_rejectOnError s" and "\<not> isResolved s" and "promise s = Pending"
    and "p \<in> set (running s)"
  shows "\<exists>s'. promiseRejected p e i s = Inr s' \<and> promise s' = Rejected e \<and> isResolved s' \<and>
    enqueued s' = enqueued s \<and> continuations s' = continuations s \<and>
    running s' = remove1 p (running s) \<and> emitted s' = emitted s"
proof -
  from assms(4) obtain k where k: "indexOf (running s) p = Some k"
    using indexOf_None[of "running s" p] by (cases "indexOf (running s) p") auto
  with assms(1-3) show ?thesis
    by (simp add: promiseRejected_def Let_def opt_rejectOnError_def reject_promise_def
        indexOf_splice1)
qed

text \<open>
  Accumulate mode. The result promise is never rejected, and a fulfilled sequence has one
  slot per admission: the slot of every failed task holds the \<^verbatim>\<open>PoolErrorImpl\<close> with that
  task's cause, the slot of every successful task holds its value, and every slot is one
  or the other.
\<close>

lemma accumulate_mode_never_rejects:
  assumes "Option.bind opts rejectOnError \<noteq> Some True"
    and "exec as (new_PromisePool opts) = Some s"
  shows "(\<forall>e. promise s \<noteq> Rejected e) \<and>
    (\<forall>r. promise s = Fulfilled r \<longrightarrow>
       length r = length (admitted as (new_PromisePool opts :: js_value PromisePool)) \<and>
       (\<forall>i < length r.
          (\<exists>p v. Fulfils p i v \<in> set as \<and> r ! i = Some (Value v)) \<or>
          (\<exists>p e. Rejects p i e \<in> set as \<and> r ! i = Some (PoolErrorImpl (rejection_message i) e))) \<and>
       (\<forall>p i e. Rejects p i e \<in> set as \<longrightarrow>
          i < length r \<and> r ! i = Some (PoolErrorImpl (rejection_message i) e)) \<and>
       (\<forall>p i v. Fulfils p i v \<in> set as \<longrightarrow> i < length r \<and> r ! i = Some (Value v)))"
proof -
  let ?adm = "admitted as (new_PromisePool opts :: js_value PromisePool)"
  have core: "core ?adm (completions as) s"
    using core_new accumulate_new[OF assms(1)] assms(2) by (rule core_run)
  from core have "promise s = Pending \<or> promise s = Fulfilled (result s)"
    unfolding core_def by blast
  then have 1: "\<forall>e. promise s \<noteq> Rejected e"
    by auto
  have 4: "length r = length ?adm \<and>
       (\<forall>i < length r.
          (\<exists>p v. Fulfils p i v \<in> set as \<and> r ! i = Some (Value v)) \<or>
          (\<exists>p e. Rejects p i e \<in> set as \<and> r ! i = Some (PoolErrorImpl (rejection_message i) e))) \<and>
       (\<forall>p i e. Rejects p i e \<in> set as \<longrightarrow>
          i < length r \<and> r ! i = Some (PoolErrorImpl (rejection_message i) e)) \<and>
       (\<forall>p i v. Fulfils p i v \<in> set as \<longrightarrow> i < length r \<and> r ! i = Some (Value v))"
    if f: "promise s = Fulfilled r" for r
  proof -
    note facts = core_fulfilled[OF core f]
    have one: "\<exists>x. completions as i = [(?adm ! i, x)] \<and> r ! i = Some x" if "i < length r" for i
      using facts(3) that by blast
    have none: "completions as i = []" if "length r \<le> i" for i
      using facts(4) that by blast
    have slot: "i < length r \<and> r ! i = Some x" if "completion a = Some (i, p, x)" "a \<in> set as" for a i p x
    proof -
      from completions_mem[OF that] have m: "(p, x) \<in> set (completions as i)" .
      then have "i < length r"
        using none[of i] by (cases "i < length r") auto
      moreover from one[OF this] m have "r ! i = Some x"
        by auto
      ultimately show ?thesis by simp
    qed
    have each: "(\<exists>p v. Fulfils p i v \<in> set as \<and> r ! i = Some (Value v)) \<or>
          (\<exists>p e. Rejects p i e \<in> set as \<and> r ! i = Some (PoolErrorImpl (rejection_message i) e))"
      if "i < length r" for i
    proof -
      from one[OF that] obtain x where x: "completions as i = [(?adm ! i, x)]" "r ! i = Some x"
        by blast
      then have "(?adm ! i, x) \<in> set (completions as i)"
        by simp
      from completions_memD[OF this] obtain a where a: "a \<in> set as" "completion a = Some (i, ?adm ! i, x)"
        by blast
      with completion_cases[OF a(2)] x(2) show ?thesis
        by blast
    qed
    have rej: "i < length r \<and> r ! i = Some (PoolErrorImpl (rejection_message i) e)"
      if "Rejects p i e \<in> set as" for p i e
      using slot[of "Rejects p i e" i p "PoolErrorImpl (rejection_message i) e"] that by simp
    have ful: "i < length r \<and> r ! i = Some (Value v)"
      if "Fulfils p i v \<in> set as" for p i v
      using slot[of "Fulfils p i v" i p "Value v"] that by simp
    from facts(2) each rej ful show ?thesis
      by blast
  qed
  have 5: "\<forall>r. promise s = Fulfilled r \<longrightarrow>
       length r = length ?adm \<and>
       (\<forall>i < length r.
          (\<exists>p v. Fulfils p i v \<in> set as \<and> r ! i = Some (Value v)) \<or>
          (\<exists>p e. Rejects p i e \<in> set as \<and> r ! i = Some (PoolErrorImpl (rejection_message i) e))) \<and>
       (\<forall>p i e. Rejects p i e \<in> set as \<longrightarrow>
          i < length r \<and> r ! i = Some (PoolErrorImpl (rejection_message i) e)) \<and>
       (\<forall>p i v. Fulfils p i v \<in> set as \<longrightarrow> i < length r \<and> r ! i = Some (Value v))"
    using 4 by (intro allI impI)
  from 1 5 show ?thesis
    by (rule conjI)
qed

text \<open>
  Accumulate mode, in a run where the cause of every failure is an \<^verbatim>\<open>Error\<close> or a value
  \<^verbatim>\<open>JSON.stringify\<close> serialises: once the pool is closed and drained (queue and running
  both empty) the result promise is fulfilled with the result array; while a closed pool
  with a positive or unbounded cap is still pending, a launched task is still to complete.
\<close>

lemma accumulate_mode_resolves_when_causes_print:
  assumes "Option.bind opts rejectOnError \<noteq> Some True"
    and "list_all prints as"
    and "exec as (new_PromisePool opts) = Some s"
  shows "(isClosed s \<and> enqueued s = [] \<and> running s = [] \<longrightarrow> promise s = Fulfilled (result s)) \<and>
    (length_lt 0 (pool_size s) \<and> isClosed s \<and> promise s = Pending \<longrightarrow> continuations s \<noteq> [])"
proof -
  let ?adm = "admitted as (new_PromisePool opts :: js_value PromisePool)"
  have core: "core ?adm (completions as) s"
    using core_new accumulate_new[OF assms(1)] assms(3) by (rule core_run)
  have l: "life s"
    using life_new accumulate_new[OF assms(1)] assms(2,3) by (rule life_run)
  have 2: "isClosed s \<and> enqueued s = [] \<and> running s = [] \<longrightarrow> promise s = Fulfilled (result s)"
    using core l unfolding core_def life_def by blast
  have 3: "length_lt 0 (pool_size s) \<and> isClosed s \<and> promise s = Pending \<longrightarrow> continuations s \<noteq> []"
    using accumulate_progress[OF core l] by blast
  from 2 3 show ?thesis
    by blast
qed

lemma accumulate_five_tasks_example:
  "\<exists>s. exec run_five (new_PromisePool None) = Some s \<and>
      isClosed s \<and> enqueued s = [] \<and> running s = [] \<and>
      promise s = Fulfilled [Some (Value (JsNumber 10)), Some (Value (JsNumber 11)),
                             Some (PoolErrorImpl ''Promise 2 was rejected'' (JsError ''boom'')),
                             Some (Value (JsNumber 13)), Some (Value (JsNumber 14))]"
proof -
  let ?s0 = "new_PromisePool None :: js_value PromisePool"
  have "exec run_five ?s0 \<noteq> None"
    by code_simp
  then obtain s where s: "exec run_five ?s0 = Some s"
    by blast
  have "isClosed (the (exec run_five ?s0))" "enqueued (the (exec run_five ?s0)) = []"
    "running (the (exec run_five ?s0)) = []"
    "result (the (exec run_five ?s0)) =
       [Some (Value (JsNumber 10)), Some (Value (JsNumber 11)),
        Some (PoolErrorImpl ''Promise 2 was rejected'' (JsError ''boom'')),
        Some (Value (JsNumber 13)), Some (Value (JsNumber 14))]"
    "list_all prints run_five"
    by code_simp+
  with s have e: "isClosed s" "enqueued s = []" "running s = []"
    and r: "result s = [Some (Value (JsNumber 10)), Some (Value (JsNumber 11)),
        Some (PoolErrorImpl ''Promise 2 was rejected'' (JsError ''boom'')),
        Some (Value (JsNumber 13)), Some (Value (JsNumber 14))]"
    and p: "list_all prints run_five"
    by simp_all
  from accumulate_mode_resolves_when_causes_print[OF _ p s] e r s show ?thesis
    by simp
qed

subsection \<open>Caller code that returns at once\<close>

text \<open>
  When every generator in the queue and every registered listener returns at once, and the
  bound on the depth of the calls is large enough, the methods with caller code return, and
  they return the pool that the methods of the first layer compute.
\<close>

lemma all_events_complete [simp]: "t \<in> set all_events"
  by (cases t) (simp_all add: all_events_def)

lemma at_once_in_callback:
  "at_once_in E s \<Longrightarrow> kv \<in> set (entries t s) \<Longrightarrow> callback_code E (fst kv) = at_once"
  by (auto simp: at_once_in_def list_all_iff)

lemma at_once_in_generator:
  "at_once_in E s \<Longrightarrow> q \<in> set (enqueued s) \<Longrightarrow> generator_code E (generator q) = at_once"
  by (auto simp: at_once_in_def list_all_iff)

lemma entries_le_budget: "length (entries t s) \<le> budget s"
proof -
  have "length (entries t s) \<le> sum_list (map (\<lambda>t. length (entries t s)) all_events)"
    by (cases t) (simp_all add: all_events_def)
  then show ?thesis by (simp add: budget_def)
qed

text \<open>The routines, one by one: with enough fuel each returns what its counterpart of the
  first layer computes.\<close>

lemma run_Code_at_once: "2 \<le> n \<Longrightarrow> run E n (Code at_once) s = Some (Returned s)"
proof -
  assume "2 \<le> n"
  then obtain m where "n = Suc (Suc m)"
    by (metis add_2_eq_Suc le_Suc_ex)
  then show ?thesis by (simp add: at_once_def)
qed

lemma run_EmitLoop_at_once:
  assumes "\<forall>kv \<in> set es. callback_code E (fst kv) = at_once"
    and "distinct (map fst es)"
    and "\<forall>kv \<in> set es. has_key t (fst kv) s"
    and "length es + 2 \<le> n"
  shows "run E n (EmitLoop t es) s = Some (Returned (emit_loop t es s))"
  using assms
proof (induction es arbitrary: n s)
  case Nil
  then obtain m where "n = Suc m" by (cases n) auto
  then show ?case by simp
next
  case (Cons x es)
  obtain cb only_once where x: "x = (cb, only_once)" by (cases x)
  from Cons.prems(4) obtain m where n: "n = Suc m" and m: "length es + 2 \<le> m"
    by (cases n) auto
  let ?s1 = "s\<lparr>calls := calls s @ [(t, cb)]\<rparr>"
  let ?s2 = "if only_once
        then ?s1\<lparr>listeners := (listeners ?s1)(t := map_option (\<lambda>m. map_delete m cb) (listeners ?s1 t))\<rparr>
        else ?s1"
  have code: "callback_code E cb = at_once"
    using Cons.prems(1) x by simp
  have key: "has_key t cb s"
    using Cons.prems(3) x by simp
  have c: "run E m (Code at_once) ?s1 = Some (Returned ?s1)"
    using m by (intro run_Code_at_once) simp
  have keys: "\<forall>kv \<in> set es. has_key t (fst kv) ?s2"
  proof
    fix kv assume kv: "kv \<in> set es"
    then have "has_key t (fst kv) s" using Cons.prems(3) by simp
    moreover from kv Cons.prems(2) x have "fst kv \<noteq> cb" by auto
    ultimately show "has_key t (fst kv) ?s2"
      by (auto simp: has_key_def map_delete_def split: option.splits)
  qed
  have "run E m (EmitLoop t es) ?s2 = Some (Returned (emit_loop t es ?s2))"
    using Cons.prems(1,2) keys m by (intro Cons.IH) simp_all
  then show ?case
    using key c by (simp add: n x code Let_def)
qed

lemma run_Emit_at_once:
  assumes "at_once_in E s" and "wf_listeners s" and "budget s + 3 \<le> n"
  shows "run E n (Emit t) s = Some (Returned (emit t s))"
proof -
  from assms(3) obtain m where n: "n = Suc m" and m: "budget s + 2 \<le> m"
    by (cases n) auto
  let ?s0 = "s\<lparr>emitted := emitted s @ [t]\<rparr>"
  show ?thesis
  proof (cases "listeners s t")
    case None
    then show ?thesis by (simp add: n emit_def)
  next
    case (Some es)
    then have e: "entries t s = es" by (simp add: entries_def)
    have 1: "\<forall>kv \<in> set es. callback_code E (fst kv) = at_once"
      using at_once_in_callback[OF assms(1), of _ t] e by simp
    have 2: "distinct (map fst es)"
      using assms(2) Some by (simp add: wf_listeners_def)
    have 3: "\<forall>kv \<in> set es. has_key t (fst kv) ?s0"
      using Some by (simp add: has_key_def)
    have 4: "length es + 2 \<le> m"
      using entries_le_budget[of t s] e m by simp
    from run_EmitLoop_at_once[OF 1 2 3 4] Some show ?thesis
      by (simp add: n emit_def)
  qed
qed


text \<open>An emission removes one-shot listeners and adds none.\<close>

lemma entries_emit_loop: "\<exists>P. entries u (emit_loop t es s) = filter P (entries u s)"
proof (induction es arbitrary: s)
  case Nil
  have "entries u s = filter (\<lambda>_. True) (entries u s)" by simp
  then show ?case by (simp only: emit_loop.simps) blast
next
  case (Cons x es)
  obtain cb only_once where x: "x = (cb, only_once)" by (cases x)
  define s2 where "s2 = (let s1 = s\<lparr>calls := calls s @ [(t, cb)]\<rparr>
        in if only_once
           then s1\<lparr>listeners := (listeners s1)(t := map_option (\<lambda>m. map_delete m cb) (listeners s1 t))\<rparr>
           else s1)"
  have "entries u s2 = filter (\<lambda>kv. \<not> (only_once \<and> u = t \<and> fst kv = cb)) (entries u s)"
    by (cases "listeners s t") (auto simp: s2_def entries_def map_delete_def Let_def intro!: filter_cong)
  moreover from Cons.IH[of s2] obtain P where "entries u (emit_loop t es s2) = filter P (entries u s2)"
    by blast
  ultimately have "entries u (emit_loop t es s2)
      = filter (\<lambda>kv. \<not> (only_once \<and> u = t \<and> fst kv = cb) \<and> P kv) (entries u s)"
    by simp
  moreover have "emit_loop t (x # es) s = emit_loop t es s2"
    by (simp add: x s2_def)
  ultimately show ?case by metis
qed

lemma entries_emit: "\<exists>P. entries u (emit t s) = filter P (entries u s)"
proof (cases "listeners s t")
  case None
  then have "entries u (emit t s) = filter (\<lambda>_. True) (entries u s)"
    by (simp add: emit_def entries_def)
  then show ?thesis by blast
next
  case (Some m)
  have "entries u (s\<lparr>emitted := emitted s @ [t]\<rparr>) = entries u s"
    by (simp add: entries_def)
  with entries_emit_loop[of u t m "s\<lparr>emitted := emitted s @ [t]\<rparr>"] Some show ?thesis
    by (simp add: emit_def)
qed



lemma at_once_in_emit: "at_once_in E s \<Longrightarrow> at_once_in E (emit t s)"
proof -
  assume q: "at_once_in E s"
  have "list_all (\<lambda>kv. callback_code E (fst kv) = at_once) (entries u (emit t s))" for u
  proof -
    obtain P where "entries u (emit t s) = filter P (entries u s)"
      using entries_emit by blast
    with at_once_in_callback[OF q, of _ u] show ?thesis
      by (auto simp: list_all_iff)
  qed
  with q show ?thesis
    by (simp add: at_once_in_def list_all_iff)
qed

lemma budget_emit: "budget (emit t s) \<le> budget s"
proof -
  have "length (entries u (emit t s)) \<le> length (entries u s)" for u
  proof -
    obtain P where "entries u (emit t s) = filter P (entries u s)"
      using entries_emit by blast
    then show ?thesis by simp
  qed
  then have "sum_list (map (\<lambda>u. length (entries u (emit t s))) all_events)
      \<le> sum_list (map (\<lambda>u. length (entries u s)) all_events)"
    by (intro sum_list_mono) simp
  then show ?thesis by (simp add: budget_def)
qed

lemma at_once_in_cong:
  "set (enqueued s') \<subseteq> set (enqueued s) \<Longrightarrow> listeners s' = listeners s \<Longrightarrow> at_once_in E s \<Longrightarrow> at_once_in E s'"
  by (auto simp: at_once_in_def list_all_iff entries_def)

lemma budget_cong:
  "length (enqueued s') \<le> length (enqueued s) + k \<Longrightarrow> listeners s' = listeners s \<Longrightarrow> budget s' \<le> budget s + k"
  by (simp add: budget_def entries_def)

lemma run_Launch_at_once:
  assumes "at_once_in E s" and "wf_listeners s" and "budget s + 4 \<le> n"
  shows "run E n (Launch added) s =
     Some (Returned (case launch_loop s added of (s1, added') \<Rightarrow>
        (if length_ge (length (running s1)) (pool_size s1)
         then (if added' \<noteq> 0 then emit EvFull s1 else s1)
         else s1)))"
  using assms
proof (induction "length (enqueued s)" arbitrary: s added n)
  case 0
  from "0.prems"(3) obtain m where n: "n = Suc m" and m: "budget s + 3 \<le> m"
    by (cases n) auto
  from 0 have e: "enqueued s = []" by simp
  then have l: "launch_loop s added = (s, added)"
    by (subst launch_loop.simps) simp
  from run_Emit_at_once[OF "0.prems"(1,2) m] e l show ?case
    by (simp add: n)
next
  case (Suc k)
  from Suc.prems(3) obtain m where n: "n = Suc m" and m: "budget s + 3 \<le> m"
    by (cases n) auto
  from Suc(2) obtain q rest where q: "enqueued s = q # rest" and k: "k = length rest"
    by (cases "enqueued s") auto
  show ?case
  proof (cases "length_lt (length (running s)) (pool_size s)")
    case False
    then have l: "launch_loop s added = (s, added)"
      by (subst launch_loop.simps) simp
    from run_Emit_at_once[OF Suc.prems(1,2) m] False l show ?thesis
      by (simp add: n)
  next
    case True
    let ?s1 = "s\<lparr>enqueued := rest\<rparr>"
    let ?s2 = "s\<lparr>enqueued := rest,
                 continuations := continuations s @ [(generator q, index q)],
                 running := running s @ [generator q]\<rparr>"
    have g: "generator_code E (generator q) = at_once"
      using at_once_in_generator[OF Suc.prems(1), of q] q by simp
    have c: "run E m (Code at_once) ?s1 = Some (Returned ?s1)"
      using m by (intro run_Code_at_once) simp
    have l: "launch_loop s added = launch_loop ?s2 (added + 1)"
      by (subst launch_loop.simps) (simp add: True q)
    have q2: "at_once_in E ?s2"
      using Suc.prems(1) by (rule at_once_in_cong[rotated 2]) (auto simp: q)
    have w2: "wf_listeners ?s2"
      using Suc.prems(2) by (simp add: wf_listeners_def)
    have "budget ?s2 \<le> budget s + 0"
      by (rule budget_cong) (simp_all add: q)
    moreover have "budget ?s2 < budget s"
      by (simp add: budget_def entries_def q)
    ultimately have b2: "budget ?s2 + 4 \<le> m"
      using m by simp
    have "run E m (Launch (added + 1)) ?s2 =
     Some (Returned (case launch_loop ?s2 (added + 1) of (s1, added') \<Rightarrow>
        (if length_ge (length (running s1)) (pool_size s1)
         then (if added' \<noteq> 0 then emit EvFull s1 else s1)
         else s1)))"
      using k q2 w2 b2 by (intro Suc(1)) simp_all
    moreover have "?s1\<lparr>continuations := continuations ?s1 @ [(generator q, index q)],
                      running := running ?s1 @ [generator q]\<rparr> = ?s2"
      by simp
    ultimately show ?thesis
      using True c g by (simp add: n q l Let_def del: launch_loop.simps)
  qed
qed

lemma run_RunNext_at_once:
  assumes "at_once_in E s" and "wf_listeners s" and "budget s + 5 \<le> n"
  shows "run E n RunNext s = Some (Returned (runNext s))"
proof -
  from assms(3) obtain m where n: "n = Suc m" and m: "budget s + 4 \<le> m"
    by (cases n) auto
  from m have m3: "budget s + 3 \<le> m" by simp
  from run_Launch_at_once[OF assms(1,2) m, of 0] run_Emit_at_once[OF assms(1,2) m3, of EvAvailable]
  show ?thesis
    by (simp add: n runNext_def)
qed


lemma run_Start_at_once:
  assumes "at_once_in E s" and "wf_listeners s" and "budget s + 6 \<le> n"
  shows "run E n Start s = Some (Returned (start s))"
proof -
  from assms(3) obtain m where n: "n = Suc m" and m: "budget s + 5 \<le> m"
    by (cases n) auto
  show ?thesis
  proof (cases "isStarted s")
    case True
    with run_RunNext_at_once[OF assms(1,2) m] show ?thesis
      by (simp add: n start_def)
  next
    case False
    let ?s1 = "(emit EvStart s)\<lparr>isStarted := True\<rparr>"
    from m have "budget s + 3 \<le> m" by simp
    from run_Emit_at_once[OF assms(1,2) this]
    have e: "run E m (Emit EvStart) s = Some (Returned (emit EvStart s))" .
    have q1: "at_once_in E ?s1"
      using at_once_in_emit[OF assms(1), of EvStart] by (rule at_once_in_cong[rotated 2]) simp_all
    have w1: "wf_listeners ?s1"
      using wf_listeners_emit[OF assms(2), of EvStart] by (simp add: wf_listeners_def)
    have "budget ?s1 \<le> budget (emit EvStart s) + 0"
      by (rule budget_cong) simp_all
    with budget_emit[of EvStart s] m have b1: "budget ?s1 + 5 \<le> m"
      by simp
    from run_RunNext_at_once[OF q1 w1 b1] e False show ?thesis
      by (simp add: n start_def)
  qed
qed

lemma run_Close_at_once:
  assumes "at_once_in E s" and "wf_listeners s" and "budget s + 7 \<le> n"
  shows "run E n Close s = Some (Returned (close s))"
proof -
  from assms(3) obtain m where n: "n = Suc m" and m: "budget s + 6 \<le> m"
    by (cases n) auto
  let ?s1 = "s\<lparr>isClosed := True\<rparr>"
  have q1: "at_once_in E ?s1"
    using assms(1) by (rule at_once_in_cong[rotated 2]) simp_all
  have w1: "wf_listeners ?s1"
    using assms(2) by (simp add: wf_listeners_def)
  have "budget ?s1 \<le> budget s + 0"
    by (rule budget_cong) simp_all
  with m have b1: "budget ?s1 + 6 \<le> m"
    by simp
  from run_Start_at_once[OF q1 w1 b1] show ?thesis
    by (simp add: n close_def)
qed

lemma run_Enqueue_at_once:
  assumes "at_once_in E s" and "wf_listeners s" and "generator_code E g = at_once"
    and "budget s + 8 \<le> n"
  shows "run E n (Enqueue g) s =
     Some (case enqueue g s of Inl (e, s') \<Rightarrow> Threw (thrown e) s' | Inr s' \<Rightarrow> Returned s')"
proof -
  from assms(4) obtain m where n: "n = Suc m" and m: "budget s + 7 \<le> m"
    by (cases n) auto
  let ?s1 = "s\<lparr>enqueued := enqueued s @ [\<lparr>generator = g, index = currentIndex s\<rparr>],
               currentIndex := currentIndex s + 1\<rparr>"
  have q1: "at_once_in E ?s1"
    using assms(1,3) by (auto simp: at_once_in_def list_all_iff entries_def)
  have w1: "wf_listeners ?s1"
    using assms(2) by (simp add: wf_listeners_def)
  have "budget ?s1 \<le> budget s + 1"
    by (rule budget_cong) simp_all
  with m have b1: "budget ?s1 + 6 \<le> m" "budget ?s1 + 5 \<le> m"
    by simp_all
  from run_Start_at_once[OF q1 w1 b1(1)] run_RunNext_at_once[OF q1 w1 b1(2)] show ?thesis
    by (simp add: n enqueue_def Let_def)
qed

lemma promiseDoneR_at_once:
  assumes "at_once_in E s" and "wf_listeners s" and "budget s + 5 \<le> n"
  shows "promiseDoneR E n p v i s = Some (Returned (promiseDone p v i s))"
proof (cases "indexOf (running s) p")
  case None
  then show ?thesis by (simp add: promiseDoneR_def promiseDone_def)
next
  case (Some k)
  let ?s1 = "s\<lparr>running := splice1 (running s) k, result := array_set (result s) i (Value v)\<rparr>"
  have q1: "at_once_in E ?s1"
    using assms(1) by (rule at_once_in_cong[rotated 2]) simp_all
  have w1: "wf_listeners ?s1"
    using assms(2) by (simp add: wf_listeners_def)
  have b1: "budget ?s1 \<le> budget s + 0"
    by (rule budget_cong) simp_all
  with assms(3) have "budget ?s1 + 3 \<le> n" by simp
  from run_Emit_at_once[OF q1 w1 this]
  have e: "run E n (Emit EvNext) ?s1 = Some (Returned (emit EvNext ?s1))" .
  from budget_emit[of EvNext ?s1] b1 assms(3) have "budget (emit EvNext ?s1) + 5 \<le> n"
    by simp
  from run_RunNext_at_once[OF at_once_in_emit[OF q1] wf_listeners_emit[OF w1] this] e Some
  show ?thesis
    by (simp add: promiseDoneR_def promiseDone_def)
qed

lemma promiseRejectedR_at_once:
  assumes "at_once_in E s" and "wf_listeners s" and "budget s + 5 \<le> n"
  shows "promiseRejectedR E n p e i s =
     Some (case promiseRejected p e i s of Inl (err, s') \<Rightarrow> Threw (thrown err) s' | Inr s' \<Rightarrow> Returned s')"
proof (cases "indexOf (running s) p")
  case None
  then show ?thesis by (simp add: promiseRejectedR_def promiseRejected_def)
next
  case (Some k)
  let ?s1 = "s\<lparr>running := splice1 (running s) k,
               result := array_set (result s) i (PoolErrorImpl (rejection_message i) e)\<rparr>"
  have q1: "at_once_in E ?s1"
    using assms(1) by (rule at_once_in_cong[rotated 2]) simp_all
  have w1: "wf_listeners ?s1"
    using assms(2) by (simp add: wf_listeners_def)
  have b1: "budget ?s1 \<le> budget s + 0"
    by (rule budget_cong) simp_all
  with assms(3) have "budget ?s1 + 3 \<le> n" by simp
  from run_Emit_at_once[OF q1 w1 this]
  have e: "run E n (Emit EvNext) ?s1 = Some (Returned (emit EvNext ?s1))" .
  from budget_emit[of EvNext ?s1] b1 assms(3) have "budget (emit EvNext ?s1) + 5 \<le> n"
    by simp
  from run_RunNext_at_once[OF at_once_in_emit[OF q1] wf_listeners_emit[OF w1] this] e Some
  show ?thesis
    by (simp add: promiseRejectedR_def promiseRejected_def Let_def split: sum.splits)
qed


text \<open>One operation of a run.\<close>

lemma stepR_at_once:
  assumes "at_once_in E s" and "wf_listeners s" and "brings_at_once E a" and "budget s + 8 \<le> n"
  shows "stepR E n a s = step a s"
proof (cases a)
  case CallStart
  from assms(4) have "budget s + 6 \<le> n" by simp
  from run_Start_at_once[OF assms(1,2) this] CallStart show ?thesis by simp
next
  case (CallEnqueue g)
  with assms(3) have "generator_code E g = at_once" by simp
  from run_Enqueue_at_once[OF assms(1,2) this assms(4)] CallEnqueue show ?thesis
    by (simp split: sum.splits)
next
  case CallClose
  from assms(4) have "budget s + 7 \<le> n" by simp
  from run_Close_at_once[OF assms(1,2) this] CallClose show ?thesis by simp
next
  case (CallOn t cb)
  then show ?thesis by simp
next
  case (CallOnce t cb)
  then show ?thesis by simp
next
  case (Fulfils p i v)
  let ?s1 = "s\<lparr>continuations := remove1 (p, i) (continuations s)\<rparr>"
  have q1: "at_once_in E ?s1"
    using assms(1) by (rule at_once_in_cong[rotated 2]) simp_all
  have w1: "wf_listeners ?s1"
    using assms(2) by (simp add: wf_listeners_def)
  have "budget ?s1 \<le> budget s + 0"
    by (rule budget_cong) simp_all
  with assms(4) have "budget ?s1 + 5 \<le> n" by simp
  from promiseDoneR_at_once[OF q1 w1 this] Fulfils show ?thesis by simp
next
  case (Rejects p i e)
  let ?s1 = "s\<lparr>continuations := remove1 (p, i) (continuations s)\<rparr>"
  have q1: "at_once_in E ?s1"
    using assms(1) by (rule at_once_in_cong[rotated 2]) simp_all
  have w1: "wf_listeners ?s1"
    using assms(2) by (simp add: wf_listeners_def)
  have "budget ?s1 \<le> budget s + 0"
    by (rule budget_cong) simp_all
  with assms(4) have "budget ?s1 + 5 \<le> n" by simp
  from promiseRejectedR_at_once[OF q1 w1 this] Rejects show ?thesis
    by (simp split: sum.splits)
qed

text \<open>What an operation leaves of the queue and of the listener maps; this carries the
  hypotheses along a run.\<close>

lemma shrinks_same: "enqueued s' = enqueued s \<Longrightarrow> listeners s' = listeners s \<Longrightarrow> shrinks s' s"
proof -
  assume a: "enqueued s' = enqueued s" "listeners s' = listeners s"
  have "enqueued s' = drop 0 (enqueued s)" using a by simp
  moreover have "entries u s' = filter (\<lambda>_. True) (entries u s)" for u
    using a by (simp add: entries_def)
  ultimately show ?thesis unfolding shrinks_def by blast
qed

lemma shrinks_trans: "shrinks s'' s' \<Longrightarrow> shrinks s' s \<Longrightarrow> shrinks s'' s"
proof -
  assume a: "shrinks s'' s'" and b: "shrinks s' s"
  from a b obtain k j where "enqueued s'' = drop k (enqueued s')" "enqueued s' = drop j (enqueued s)"
    unfolding shrinks_def by blast
  then have 1: "enqueued s'' = drop (k + j) (enqueued s)"
    by (simp add: add.commute)
  have 2: "\<exists>P. entries u s'' = filter P (entries u s)" for u
  proof -
    from a b obtain P Q where "entries u s'' = filter P (entries u s')" "entries u s' = filter Q (entries u s)"
      unfolding shrinks_def by blast
    then have "entries u s'' = filter (\<lambda>x. Q x \<and> P x) (entries u s)"
      by simp
    then show ?thesis by blast
  qed
  from 1 2 show ?thesis unfolding shrinks_def by blast
qed

lemma shrinks_emit: "shrinks (emit t s) s"
proof -
  have "enqueued (emit t s) = drop 0 (enqueued s)" by simp
  with entries_emit[of _ t s] show ?thesis unfolding shrinks_def by blast
qed

lemma shrinks_launched: "shrinks (launched n s) s"
proof -
  have "enqueued (launched n s) = drop n (enqueued s)" by (simp add: launched_fields)
  moreover have "entries u (launched n s) = filter (\<lambda>_. True) (entries u s)" for u
    by (simp add: entries_def)
  ultimately show ?thesis unfolding shrinks_def by blast
qed

lemma shrinks_runNext: "shrinks (runNext s) s"
proof (cases s rule: runNext_cases)
  case same
  then show ?thesis by (simp add: shrinks_same)
next
  case (launch n)
  from launch(4) shrinks_launched[of n s] shrinks_trans[OF shrinks_emit shrinks_launched, of EvFull n s]
  show ?thesis by auto
next
  case resolve
  then show ?thesis by (simp add: shrinks_same resolve_promise_def)
next
  case available
  then show ?thesis by (simp add: shrinks_emit)
qed

lemma shrinks_start: "shrinks (start s) s"
proof -
  have "shrinks ((emit EvStart s)\<lparr>isStarted := True\<rparr>) (emit EvStart s)"
    by (rule shrinks_same) simp_all
  then have "shrinks ((emit EvStart s)\<lparr>isStarted := True\<rparr>) s"
    using shrinks_emit by (rule shrinks_trans)
  moreover have "shrinks s s" by (rule shrinks_same) simp_all
  ultimately have "shrinks (if \<not> isStarted s then (emit EvStart s)\<lparr>isStarted := True\<rparr> else s) s"
    by simp
  with shrinks_runNext show ?thesis
    unfolding start_def by (rule shrinks_trans)
qed

lemma shrinks_close: "shrinks (close s) s"
proof -
  have "shrinks (s\<lparr>isClosed := True\<rparr>) s" by (rule shrinks_same) simp_all
  with shrinks_start show ?thesis
    unfolding close_def by (rule shrinks_trans)
qed

lemma shrinks_completion: "shrinks (runNext (emit EvNext (settle_task p i x s))) s"
proof -
  have "shrinks (settle_task p i x s) s"
    by (rule shrinks_same) (simp_all add: settle_task_def)
  with shrinks_emit have "shrinks (emit EvNext (settle_task p i x s)) s"
    by (rule shrinks_trans)
  with shrinks_runNext show ?thesis by (rule shrinks_trans)
qed

lemma at_once_in_shrinks: "at_once_in E s \<Longrightarrow> shrinks s' s \<Longrightarrow> at_once_in E s'"
proof -
  assume q: "at_once_in E s" and sh: "shrinks s' s"
  from sh obtain k where k: "enqueued s' = drop k (enqueued s)"
    unfolding shrinks_def by blast
  have 1: "list_all (\<lambda>q. generator_code E (generator q) = at_once) (enqueued s')"
    using q by (auto simp: k at_once_in_def list_all_iff dest: in_set_dropD)
  have 2: "list_all (\<lambda>kv. callback_code E (fst kv) = at_once) (entries u s')" for u
  proof -
    from sh obtain P where "entries u s' = filter P (entries u s)"
      unfolding shrinks_def by blast
    with at_once_in_callback[OF q, of _ u] show ?thesis
      by (auto simp: list_all_iff)
  qed
  from 1 2 show ?thesis by (simp add: at_once_in_def list_all_iff)
qed

lemma budget_shrinks: "shrinks s' s \<Longrightarrow> budget s' \<le> budget s"
proof -
  assume sh: "shrinks s' s"
  from sh obtain k where k: "enqueued s' = drop k (enqueued s)"
    unfolding shrinks_def by blast
  have "length (entries u s') \<le> length (entries u s)" for u
  proof -
    from sh obtain P where "entries u s' = filter P (entries u s)"
      unfolding shrinks_def by blast
    then show ?thesis by simp
  qed
  then have "sum_list (map (\<lambda>u. length (entries u s')) all_events)
      \<le> sum_list (map (\<lambda>u. length (entries u s)) all_events)"
    by (intro sum_list_mono) simp
  then show ?thesis by (simp add: budget_def k)
qed

lemma entries_listeners_set:
  "entries u (listeners_set t cb b s) = (if u = t then map_set (entries t s) cb b else entries u s)"
  by (simp add: entries_def listeners_set_def)

lemma map_set_keys_subset: "fst ` set (map_set m k v) \<subseteq> insert k (fst ` set m)"
  by (induction m k v rule: map_set.induct) auto

lemma length_map_set: "length (map_set m cb b) \<le> length m + 1"
  by (induction m cb b rule: map_set.induct) auto

lemma at_once_in_listeners_set:
  assumes "at_once_in E s" and "callback_code E cb = at_once"
  shows "at_once_in E (listeners_set t cb b s)"
proof -
  have "list_all (\<lambda>kv. callback_code E (fst kv) = at_once) (entries u (listeners_set t cb b s))" for u
    using map_set_keys_subset[of "entries t s" cb b]
      at_once_in_callback[OF assms(1), of _ u] at_once_in_callback[OF assms(1), of _ t] assms(2)
    by (auto simp: entries_listeners_set list_all_iff)
  with assms(1) show ?thesis
    by (simp add: at_once_in_def list_all_iff)
qed

lemma budget_listeners_set: "budget (listeners_set t cb b s) \<le> budget s + 1"
proof -
  have "sum_list (map (\<lambda>u. length (entries u (listeners_set t cb b s))) all_events)
      \<le> sum_list (map (\<lambda>u. length (entries u s)) all_events) + 1"
    using length_map_set[of "entries t s" cb b]
    by (cases t) (simp_all add: all_events_def entries_listeners_set)
  then show ?thesis by (simp add: budget_def)
qed

lemma at_once_in_step:
  assumes "at_once_in E s" and "brings_at_once E a" and "step a s = Some s'"
  shows "at_once_in E s'"
proof (cases a)
  case CallStart
  with assms(3) at_once_in_shrinks[OF assms(1) shrinks_start] show ?thesis by simp
next
  case (CallEnqueue g)
  let ?s1 = "admit g s"
  have q1: "at_once_in E ?s1"
    using assms(1,2) CallEnqueue by (auto simp: at_once_in_def list_all_iff entries_def admit_def)
  from CallEnqueue assms(3) have "s' = enqueue_step g s"
    by (simp add: enqueue_step_def)
  with assms(1) at_once_in_shrinks[OF q1 shrinks_start] at_once_in_shrinks[OF q1 shrinks_runNext] show ?thesis
    by (simp add: enqueue_step_eq)
next
  case CallClose
  with assms(3) at_once_in_shrinks[OF assms(1) shrinks_close] show ?thesis by simp
next
  case (CallOn t cb)
  with assms show ?thesis by (auto simp: on_def intro: at_once_in_listeners_set)
next
  case (CallOnce t cb)
  with assms show ?thesis by (auto simp: once_def intro: at_once_in_listeners_set)
next
  case (Fulfils p i v)
  let ?s1 = "s\<lparr>continuations := remove1 (p, i) (continuations s)\<rparr>"
  have q1: "at_once_in E ?s1"
    using assms(1) by (rule at_once_in_cong[rotated 2]) simp_all
  from Fulfils assms(3) have "s' = promiseDone p v i ?s1"
    by (simp split: if_splits)
  with q1 at_once_in_shrinks[OF q1 shrinks_completion] show ?thesis
    by (simp add: promiseDone_eq)
next
  case (Rejects p i e)
  let ?s1 = "s\<lparr>continuations := remove1 (p, i) (continuations s)\<rparr>"
  let ?x = "PoolErrorImpl (rejection_message i) e"
  have q1: "at_once_in E ?s1"
    using assms(1) by (rule at_once_in_cong[rotated 2]) simp_all
  then have q2: "at_once_in E (settle_task p i ?x ?s1)"
    "at_once_in E (reject_promise e ((settle_task p i ?x ?s1)\<lparr>isResolved := True\<rparr>))"
    by (auto simp: settle_task_def reject_promise_def elim!: at_once_in_cong[rotated 2])
  from Rejects assms(3) have "s' = rejected_step p e i ?s1"
    by (simp add: step_Rejects del: step.simps)
  with q1 q2 at_once_in_shrinks[OF q1 shrinks_completion] show ?thesis
    by (simp add: rejected_step_eq)
qed

lemma budget_step:
  assumes "step a s = Some s'"
  shows "budget s' \<le> budget s + 1"
proof (cases a)
  case CallStart
  with assms budget_shrinks[OF shrinks_start, of s] show ?thesis by simp
next
  case (CallEnqueue g)
  have b1: "budget (admit g s) \<le> budget s + 1"
    by (rule budget_cong) (simp_all add: admit_def)
  from CallEnqueue assms have "s' = enqueue_step g s"
    by (simp add: enqueue_step_def)
  with b1 budget_shrinks[OF shrinks_start, of "admit g s"] budget_shrinks[OF shrinks_runNext, of "admit g s"]
  show ?thesis
    by (simp add: enqueue_step_eq)
next
  case CallClose
  with assms budget_shrinks[OF shrinks_close, of s] show ?thesis by simp
next
  case (CallOn t cb)
  with assms budget_listeners_set[of t cb False s] show ?thesis by (auto simp: on_def)
next
  case (CallOnce t cb)
  with assms budget_listeners_set[of t cb True s] show ?thesis by (auto simp: once_def)
next
  case (Fulfils p i v)
  let ?s1 = "s\<lparr>continuations := remove1 (p, i) (continuations s)\<rparr>"
  have b1: "budget ?s1 \<le> budget s + 0"
    by (rule budget_cong) simp_all
  from Fulfils assms have "s' = promiseDone p v i ?s1"
    by (simp split: if_splits)
  with b1 budget_shrinks[OF shrinks_completion, of p i "Value v" ?s1] show ?thesis
    by (simp add: promiseDone_eq)
next
  case (Rejects p i e)
  let ?s1 = "s\<lparr>continuations := remove1 (p, i) (continuations s)\<rparr>"
  let ?x = "PoolErrorImpl (rejection_message i) e"
  have b1: "budget ?s1 \<le> budget s + 0"
    by (rule budget_cong) simp_all
  have b2: "budget (settle_task p i ?x ?s1) \<le> budget ?s1 + 0"
    "budget (reject_promise e ((settle_task p i ?x ?s1)\<lparr>isResolved := True\<rparr>)) \<le> budget ?s1 + 0"
    by (rule budget_cong; simp add: settle_task_def reject_promise_def)+
  from Rejects assms have "s' = rejected_step p e i ?s1"
    by (simp add: step_Rejects del: step.simps)
  with b1 b2 budget_shrinks[OF shrinks_completion, of p i ?x ?s1] show ?thesis
    by (simp add: rejected_step_eq)
qed

text \<open>A run: the bound grows by one with each operation, which can add one task to the queue
  or one listener.\<close>

lemma execR_at_once:
  assumes "at_once_in E s" and "wf_listeners s" and "list_all (brings_at_once E) as"
    and "budget s + length as + 8 \<le> n"
  shows "execR E n as s = exec as s"
  using assms
proof (induction as arbitrary: s)
  case Nil
  then show ?case by simp
next
  case (Cons a as)
  from Cons.prems(3) have a: "brings_at_once E a" and as: "list_all (brings_at_once E) as"
    by simp_all
  from Cons.prems(4) have "budget s + 8 \<le> n" by simp
  from stepR_at_once[OF Cons.prems(1,2) a this] have st: "stepR E n a s = step a s" .
  show ?case
  proof (cases "step a s")
    case None
    with st show ?thesis by simp
  next
    case (Some s1)
    from budget_step[OF Some] Cons.prems(4) have "budget s1 + length as + 8 \<le> n"
      by simp
    from Cons.IH[OF at_once_in_step[OF Cons.prems(1) a Some] wf_listeners_step[OF Cons.prems(2) Some] as this]
    show ?thesis
      using st Some by simp
  qed
qed

text \<open>A run from the constructor, with caller code that returns at once.\<close>

lemma execR_at_once_new:
  assumes "list_all (brings_at_once E) as" and "length as + 8 \<le> n"
  shows "execR E n as (new_PromisePool opts) = exec as (new_PromisePool opts)"
proof -
  let ?s0 = "new_PromisePool opts :: js_value PromisePool"
  have q: "at_once_in E ?s0"
    by (simp add: at_once_in_def new_PromisePool_def entries_def list_all_iff)
  have w: "wf_listeners ?s0"
    by (simp add: wf_listeners_def new_PromisePool_def)
  have "budget ?s0 = 0"
    by (simp add: budget_def new_PromisePool_def entries_def all_events_def)
  with assms(2) have "budget ?s0 + length as + 8 \<le> n"
    by simp
  from execR_at_once[OF q w assms(1) this] show ?thesis .
qed

subsection \<open>The available event, operation by operation\<close>

text \<open>The emissions of \<^verbatim>\<open>available\<close> by each operation of the first layer.\<close>

lemma emissions_cont [simp]:
  "emissions t (s\<lparr>continuations := c\<rparr>) = emissions t s"
  "emissions t (s\<lparr>isStarted := b\<rparr>) = emissions t s"
  "emissions t (s\<lparr>isClosed := b\<rparr>) = emissions t s"
  "emissions t (s\<lparr>isResolved := b\<rparr>) = emissions t s"
  "emissions t (admit g s) = emissions t s"
  "emissions t (settle_task p i x s) = emissions t s"
  "emissions t (reject_promise e s) = emissions t s"
  "emissions t (listeners_set u cb b s) = emissions t s"
  by (simp_all add: emissions_def admit_def settle_task_def reject_promise_def)



















subsection \<open>Runs whose caller code returns at once\<close>

text \<open>
  The runs of the first layer are the runs whose generators and listeners return at once
  (lemma \<open>execR_at_once_new\<close>). For them, in accumulate mode (\<^verbatim>\<open>rejectOnError\<close> not set),
  whenever a run has fulfilled the result promise with the sequence \<open>r\<close>: \<open>r\<close> has one slot
  per admission of the run, and for every \<open>i\<close> the run holds exactly one completion
  carrying index \<open>i\<close>, it is the completion of the promise of the \<open>i\<close>-th admitted
  generator, and its outcome is what slot \<open>i\<close> holds. The run is arbitrary, so the order of
  the completions does not matter.
\<close>

lemma results_in_submission_order:
  assumes "Option.bind opts rejectOnError \<noteq> Some True"
    and "exec as (new_PromisePool opts) = Some s"
    and "promise s = Fulfilled r"
  shows "length r = length (admitted as (new_PromisePool opts :: js_value PromisePool)) \<and>
    (\<forall>i < length r. \<exists>x.
        completions as i = [(admitted as (new_PromisePool opts :: js_value PromisePool) ! i, x)] \<and>
        r ! i = Some x)"
proof -
  have "core (admitted as (new_PromisePool opts :: js_value PromisePool)) (completions as) s"
    using core_new accumulate_new[OF assms(1)] assms(2) by (rule core_run)
  from core_fulfilled(2,3)[OF this assms(3)] show ?thesis
    by simp
qed

lemma results_in_submission_order_example:
  "Option.bind (Some cap2) rejectOnError \<noteq> Some True \<and>
   (\<exists>s. exec run_out_of_order (new_PromisePool (Some cap2)) = Some s \<and>
      promise s = Fulfilled [Some (Value (JsNumber 10)), Some (Value (JsNumber 11)),
                             Some (PoolErrorImpl ''Promise 2 was rejected'' (JsError ''boom''))] \<and>
      admitted run_out_of_order (new_PromisePool (Some cap2) :: js_value PromisePool) = [100, 101, 102] \<and>
      (\<forall>i < 3. \<exists>x. completions run_out_of_order i = [([100, 101, 102] ! i, x)] \<and>
          [Some (Value (JsNumber 10)), Some (Value (JsNumber 11)), Some (PoolErrorImpl ''Promise 2 was rejected'' (JsError ''boom''))] ! i = Some x))"
proof -
  let ?s0 = "new_PromisePool (Some cap2) :: js_value PromisePool"
  let ?r = "[Some (Value (JsNumber 10)), Some (Value (JsNumber 11)), Some (PoolErrorImpl ''Promise 2 was rejected'' (JsError ''boom''))]"
  have h: "Option.bind (Some cap2) rejectOnError \<noteq> Some True"
    by (simp add: cap2_def)
  have "exec run_out_of_order ?s0 \<noteq> None"
    by code_simp
  then obtain s where s: "exec run_out_of_order ?s0 = Some s"
    by blast
  have "promise (the (exec run_out_of_order ?s0)) = Fulfilled ?r"
    by code_simp
  with s have f: "promise s = Fulfilled ?r"
    by simp
  have adm: "admitted run_out_of_order ?s0 = [100, 101, 102]"
    by code_simp
  from results_in_submission_order[OF h s f] adm h s f show ?thesis
    by simp
qed

text \<open>
  For the same runs, in a pool constructed with a finite concurrency cap \<open>C\<close> (a positive
  integer): after any sequence of admissions, completions, listener registrations and
  \<^verbatim>\<open>start\<close>/\<^verbatim>\<open>close\<close> calls, the running count (the length of \<^verbatim>\<open>#running\<close>) is at
  most \<open>C\<close>, and so is the number of launched tasks that have not completed yet.
\<close>

lemma running_never_exceeds_cap:
  assumes "concurrency opts = Num C" and "0 < C"
    and "exec as (new_PromisePool (Some opts)) = Some s"
  shows "int (length (running s)) \<le> C \<and> int (length (continuations s)) \<le> C"
proof -
  have "within_cap s"
    using within_cap_step within_cap_new assms(3) by (rule exec_invariant)
  moreover have "pool_size s = pool_size (new_PromisePool (Some opts) :: js_value PromisePool)"
    by (rule exec_invariant[where P="\<lambda>s'. pool_size s' = pool_size (new_PromisePool (Some opts) :: js_value PromisePool)", OF _ _ assms(3)])
       (simp_all add: pool_size_step)
  ultimately have r: "int (length (running s)) \<le> C"
    using assms(1,2) by (simp add: within_cap_def new_PromisePool_def)
  have "tracked s"
    using tracked_step tracked_new assms(3) by (rule exec_invariant)
  from tracked_length[OF this] r show ?thesis
    by simp
qed

lemma running_never_exceeds_cap_example:
  "concurrency cap2 = Num 2 \<and> (0::int) < 2 \<and>
   (\<exists>s. exec [CallEnqueue 100, CallEnqueue 101, CallEnqueue 102, Fulfils 101 1 (JsNumber 5),
              CallEnqueue 103] (new_PromisePool (Some cap2)) = Some s \<and>
        running s = [100, 102] \<and> int (length (running s)) \<le> 2 \<and>
        int (length (continuations s)) \<le> 2)"
proof -
  let ?as = "[CallEnqueue 100, CallEnqueue 101, CallEnqueue 102, Fulfils 101 1 (JsNumber 5),
              CallEnqueue 103]"
  have c: "concurrency cap2 = Num 2"
    by (simp add: cap2_def)
  have "exec ?as (new_PromisePool (Some cap2)) \<noteq> None"
    by code_simp
  then obtain s where s: "exec ?as (new_PromisePool (Some cap2)) = Some s"
    by blast
  have "running (the (exec ?as (new_PromisePool (Some cap2)))) = [100, 102]"
    by code_simp
  with s have r: "running s = [100, 102]"
    by simp
  from running_never_exceeds_cap[OF c _ s]
  have "int (length (running s)) \<le> 2 \<and> int (length (continuations s)) \<le> 2"
    by simp
  with c s r show ?thesis
    by simp
qed

text \<open>
  With generators and listeners that return at once, for a pool with cap \<open>C\<close> (a positive
  integer) and at most \<open>C\<close> tasks running, a scheduling pass appends \<^verbatim>\<open>full\<close> to the
  emissions exactly once when it launches at least one task and ends with \<open>C\<close> running, and
  not at all otherwise; an admission made while \<open>C\<close> tasks are running emits no
  \<^verbatim>\<open>full\<close>.
\<close>

lemma full_once_per_transition:
  assumes "pool_size s = Num C" and "0 < C" and "int (length (running s)) \<le> C"
  shows "emissions EvFull (runNext s) = emissions EvFull s @
           (if length (running s) < length (running (runNext s)) \<and>
               int (length (running (runNext s))) = C
            then [EvFull] else []) \<and>
         (int (length (running s)) = C \<longrightarrow>
            (\<forall>g s'. enqueue g s = Inr s' \<longrightarrow> emissions EvFull s' = emissions EvFull s))"
  using emissions_full_runNext[OF assms] emissions_full_enqueue_when_full[OF assms(1)]
  by blast

lemma full_once_per_transition_example:
  "pool_size ex_one_running = Num 2 \<and> (0::int) < 2 \<and> int (length (running ex_one_running)) \<le> 2 \<and>
   length (running ex_one_running) < length (running (runNext ex_one_running)) \<and>
   int (length (running (runNext ex_one_running))) = 2 \<and>
   emissions EvFull (runNext ex_one_running) = emissions EvFull ex_one_running @ [EvFull] \<and>
   pool_size ex_two_running = Num 2 \<and> int (length (running ex_two_running)) = 2 \<and>
   (\<exists>s'. enqueue 102 ex_two_running = Inr s' \<and>
         map index (enqueued s') = [2] \<and>
         emissions EvFull s' = emissions EvFull ex_two_running)"
proof -
  have 1: "pool_size ex_one_running = Num 2" "int (length (running ex_one_running)) \<le> 2"
    "length (running ex_one_running) < length (running (runNext ex_one_running))"
    "int (length (running (runNext ex_one_running))) = 2"
    by code_simp+
  have 2: "pool_size ex_two_running = Num 2" "int (length (running ex_two_running)) = 2"
    "\<not> isClosed ex_two_running" "\<not> isResolved ex_two_running"
    by code_simp+
  from 2(3,4) obtain s' where s': "enqueue 102 ex_two_running = Inr s'"
    and e: "s' = enqueue_step 102 ex_two_running"
    by (simp add: enqueue_Inr)
  have "map index (enqueued (enqueue_step 102 ex_two_running)) = [2]"
    by code_simp
  with e have q: "map index (enqueued s') = [2]"
    by simp
  have pos: "(0::int) < 2"
    by simp
  from full_once_per_transition[OF 1(1) pos 1(2)] 1(3,4)
  have a: "emissions EvFull (runNext ex_one_running) = emissions EvFull ex_one_running @ [EvFull]"
    by simp
  from full_once_per_transition[OF 2(1) pos] 2(2) s'
  have b: "emissions EvFull s' = emissions EvFull ex_two_running"
    by simp
  from 1 2 s' q a b show ?thesis
    by simp
qed

section \<open>The claims\<close>

text \<open>
  C1. Accumulate mode (no options). Generator 100 throws when it is called. The
  \<^verbatim>\<open>enqueue\<close> call that launches it throws in turn, after the task has been given index
  0 and shifted off the queue: the task is neither queued nor running, and no continuation
  is registered for it. A second task is admitted with index 1 and fulfils with 5, and the
  pool is closed: the result promise is fulfilled with a sequence whose slot 0 is a hole.
  When generator 100 calls \<^verbatim>\<open>close()\<close> instead, before it returns its promise, the pass
  run by that call finds the queue and \<^verbatim>\<open>#running\<close> empty and fulfils the result promise
  with the empty sequence, while the one task admitted is about to be pushed.
\<close>

theorem synchronous_throw_leaves_hole:
  "map_option currentIndex (execR throwing_generator 20 [CallEnqueue 100] (new_PromisePool None)) = Some 1 \<and>
   map_option enqueued (execR throwing_generator 20 [CallEnqueue 100] (new_PromisePool None)) = Some [] \<and>
   map_option running (execR throwing_generator 20 [CallEnqueue 100] (new_PromisePool None)) = Some [] \<and>
   map_option continuations (execR throwing_generator 20 [CallEnqueue 100] (new_PromisePool None)) = Some [] \<and>
   map_option currentIndex (execR throwing_generator 20 run_sync_throw (new_PromisePool None)) = Some 2 \<and>
   map_option isClosed (execR throwing_generator 20 run_sync_throw (new_PromisePool None)) = Some True \<and>
   map_option promise (execR throwing_generator 20 run_sync_throw (new_PromisePool None))
     = Some (Fulfilled [None, Some (Value (JsNumber 5))]) \<and>
   map_option currentIndex (execR closing_generator 20 [CallEnqueue 100] (new_PromisePool None)) = Some 1 \<and>
   map_option running (execR closing_generator 20 [CallEnqueue 100] (new_PromisePool None)) = Some [100] \<and>
   map_option promise (execR closing_generator 20 [CallEnqueue 100] (new_PromisePool None)) = Some (Fulfilled [])"
  by code_simp

text \<open>
  C2. A pool of cap 1. Generator 100 enqueues generator 101 before it returns its promise.
  The \<^verbatim>\<open>enqueue\<close> call made by the generator runs a scheduling pass while task 100 is off
  the queue and not yet in \<^verbatim>\<open>#running\<close>: the pass finds no task running and launches task
  101. Back in the outer pass the promise of generator 100 is pushed: two tasks are
  running, and two continuations are pending, in a pool of cap 1.
\<close>

theorem reentrant_enqueue_exceeds_cap:
  "pool_size (new_PromisePool (Some cap1) :: js_value PromisePool) = Num 1 \<and>
   map_option pool_size (execR enqueuing_generator 20 [CallEnqueue 100] (new_PromisePool (Some cap1))) = Some (Num 1) \<and>
   map_option running (execR enqueuing_generator 20 [CallEnqueue 100] (new_PromisePool (Some cap1))) = Some [101, 100] \<and>
   map_option continuations (execR enqueuing_generator 20 [CallEnqueue 100] (new_PromisePool (Some cap1)))
     = Some [(101, 1), (100, 0)]"
  by code_simp

text \<open>
  C3. Fail-fast mode, one slot, two tasks: the first task fails while the second is
  queued. The failure rejects the result promise with its cause and launches nothing; the
  \<^verbatim>\<open>close()\<close> call that follows runs a scheduling pass, which does not look at the
  settled flag, and launches the queued task.
\<close>

theorem failfast_close_launches_queued_task:
  "map_option promise (exec (take 3 run_failfast) (new_PromisePool (Some failfast1))) = Some (Rejected (JsError ''boom'')) \<and>
   map_option isResolved (exec (take 3 run_failfast) (new_PromisePool (Some failfast1))) = Some True \<and>
   map_option running (exec (take 3 run_failfast) (new_PromisePool (Some failfast1))) = Some [] \<and>
   map_option (map generator \<circ> enqueued) (exec (take 3 run_failfast) (new_PromisePool (Some failfast1))) = Some [101] \<and>
   map_option promise (exec run_failfast (new_PromisePool (Some failfast1))) = Some (Rejected (JsError ''boom'')) \<and>
   map_option running (exec run_failfast (new_PromisePool (Some failfast1))) = Some [101] \<and>
   map_option enqueued (exec run_failfast (new_PromisePool (Some failfast1))) = Some [] \<and>
   map_option continuations (exec run_failfast (new_PromisePool (Some failfast1))) = Some [(101, 1)]"
  by code_simp

text \<open>
  C4. Accumulate mode, one task, the pool is closed, and the task fails with a cause that
  is not an \<^verbatim>\<open>Error\<close> and that \<^verbatim>\<open>JSON.stringify\<close> throws on (an object with a cyclic
  reference). \<^verbatim>\<open>promiseRejected\<close> removes the task from \<^verbatim>\<open>running\<close>, stores the
  \<^verbatim>\<open>PoolErrorImpl\<close> in slot 0, and throws the \<^verbatim>\<open>TypeError\<close> while it evaluates the
  argument of \<^verbatim>\<open>console.error\<close>: \<^verbatim>\<open>next\<close> is not emitted and \<^verbatim>\<open>runNext\<close> is not called.
  The pool is closed and drained, and its result promise is still pending.
\<close>

theorem cyclic_cause_leaves_closed_pool_pending:
  "map_option isClosed (exec run_cyclic_cause (new_PromisePool None)) = Some True \<and>
   map_option running (exec run_cyclic_cause (new_PromisePool None)) = Some [] \<and>
   map_option enqueued (exec run_cyclic_cause (new_PromisePool None)) = Some [] \<and>
   map_option continuations (exec run_cyclic_cause (new_PromisePool None)) = Some [] \<and>
   map_option result (exec run_cyclic_cause (new_PromisePool None))
     = Some [Some (PoolErrorImpl ''Promise 0 was rejected'' (JsCyclic 1))] \<and>
   map_option emitted (exec run_cyclic_cause (new_PromisePool None)) = Some [EvStart] \<and>
   map_option isResolved (exec run_cyclic_cause (new_PromisePool None)) = Some False \<and>
   map_option promise (exec run_cyclic_cause (new_PromisePool None)) = Some Pending \<and>
   console_error_argument (JsCyclic 1) = Inl (TypeError ''Converting circular structure to JSON'')"
  by code_simp

text \<open>
  C5, as stated, fails. A pool closed with nothing enqueued is fulfilled with the empty
  sequence: it is settled, and it is closed. \<^verbatim>\<open>enqueue\<close> on it throws the "already
  closed" error, not the "already performed" error.
\<close>

theorem settled_pool_raises_closed_error:
  "isClosed (close (new_PromisePool None :: js_value PromisePool)) \<and>
   isResolved (close (new_PromisePool None :: js_value PromisePool)) \<and>
   promise (close (new_PromisePool None :: js_value PromisePool)) = Fulfilled [] \<and>
   map_sum fst isClosed (enqueue 5 (close (new_PromisePool None :: js_value PromisePool)))
     = Inl (Error ''[pool] PromisePool already closed'') \<and>
   map_sum fst isClosed (enqueue 5 (close (new_PromisePool None :: js_value PromisePool)))
     \<noteq> Inl (Error ''[pool] PromisePool already performed'')"
  by code_simp

text \<open>
  C5, amended. \<^verbatim>\<open>enqueue\<close> on a closed pool, settled or not, throws the "already closed"
  error; on a settled pool that is not closed it throws the "already performed" error;
  each at the call, before any change and before any caller code runs: the pool at the
  throw is the pool of the call, so no index is assigned and the queue is as it was. This
  holds in both layers, whatever the caller code. The two errors differ. With caller code
  that returns at once, \<^verbatim>\<open>enqueue\<close> throws in no other state.
\<close>

theorem enqueue_guards:
  "(isClosed s \<longrightarrow>
      enqueue g s = Inl (Error (''['' @ name s @ ''] PromisePool already closed''), s) \<and>
      run E (Suc n) (Enqueue g) s
        = Some (Threw (JsError (''['' @ name s @ ''] PromisePool already closed'')) s)) \<and>
   (\<not> isClosed s \<and> isResolved s \<longrightarrow>
      enqueue g s = Inl (Error (''['' @ name s @ ''] PromisePool already performed''), s) \<and>
      run E (Suc n) (Enqueue g) s
        = Some (Threw (JsError (''['' @ name s @ ''] PromisePool already performed'')) s)) \<and>
   (\<forall>e s'. enqueue g s = Inl (e, s') \<longrightarrow>
      s' = s \<and> currentIndex s' = currentIndex s \<and> enqueued s' = enqueued s \<and>
      (isClosed s \<or> isResolved s)) \<and>
   Error (''['' @ name s @ ''] PromisePool already closed'') \<noteq>
   Error (''['' @ name s @ ''] PromisePool already performed'')"
  by (auto simp: enqueue_def Let_def)

theorem enqueue_guards_witness:
  "isClosed (close (new_PromisePool None :: js_value PromisePool)) \<and>
   enqueue 5 (close (new_PromisePool None :: js_value PromisePool)) =
     Inl (Error ''[pool] PromisePool already closed'', close (new_PromisePool None)) \<and>
   run enqueuing_generator (Suc 0) (Enqueue 5) (close (new_PromisePool None)) =
     Some (Threw (JsError ''[pool] PromisePool already closed'') (close (new_PromisePool None))) \<and>
   (\<exists>s. exec [CallEnqueue 100, Rejects 100 0 (JsError ''boom'')] (new_PromisePool (Some failfast1)) = Some s \<and>
        \<not> isClosed s \<and> isResolved s \<and>
        enqueue 5 s = Inl (Error ''[pool] PromisePool already performed'', s) \<and>
        run enqueuing_generator (Suc 0) (Enqueue 5) s =
          Some (Threw (JsError ''[pool] PromisePool already performed'') s))"
proof -
  let ?c = "close (new_PromisePool None :: js_value PromisePool)"
  let ?as = "[CallEnqueue 100, Rejects 100 0 (JsError ''boom'')]"
  have nc: "name ?c = ''pool''"
    by (simp add: new_PromisePool_def DEFAULT_NAME_def)
  have "exec ?as (new_PromisePool (Some failfast1)) \<noteq> None"
    by code_simp
  then obtain s where s: "exec ?as (new_PromisePool (Some failfast1)) = Some s"
    by blast
  have "\<not> isClosed (the (exec ?as (new_PromisePool (Some failfast1))))"
    "isResolved (the (exec ?as (new_PromisePool (Some failfast1))))"
    "name (the (exec ?as (new_PromisePool (Some failfast1)))) = ''pool''"
    by code_simp+
  with s have f: "\<not> isClosed s" "isResolved s" "name s = ''pool''"
    by simp_all
  from enqueue_guards[where s="?c" and g=5 and E=enqueuing_generator and n=0] nc
  have 1: "enqueue 5 ?c = Inl (Error ''[pool] PromisePool already closed'', ?c)"
    "run enqueuing_generator (Suc 0) (Enqueue 5) ?c =
       Some (Threw (JsError ''[pool] PromisePool already closed'') ?c)"
    by simp_all
  from enqueue_guards[where s=s and g=5 and E=enqueuing_generator and n=0] f
  have 2: "enqueue 5 s = Inl (Error ''[pool] PromisePool already performed'', s)"
    "run enqueuing_generator (Suc 0) (Enqueue 5) s =
       Some (Threw (JsError ''[pool] PromisePool already performed'') s)"
    by simp_all
  from 1 2 s f show ?thesis
    by simp
qed




text \<open>
  C7. A pool with a persistent and a one-shot listener registered for \<^verbatim>\<open>close\<close>: one
  task is admitted, the pool is closed, the task completes and the result promise is
  fulfilled. No listener has been called and \<^verbatim>\<open>close\<close> has not been emitted.
\<close>

theorem close_listener_not_called:
  "map_option promise (exec run_close_listener (new_PromisePool None)) = Some (Fulfilled [Some (Value (JsNumber 7))]) \<and>
   map_option isResolved (exec run_close_listener (new_PromisePool None)) = Some True \<and>
   map_option calls (exec run_close_listener (new_PromisePool None)) = Some [] \<and>
   map_option emitted (exec run_close_listener (new_PromisePool None)) = Some [EvStart, EvNext] \<and>
   map_option (\<lambda>s. listeners s EvClose) (exec run_close_listener (new_PromisePool None))
     = Some (Some [(5, False), (6, True)])"
  by code_simp

text \<open>
  C8. A pool of cap 1 with a listener of \<^verbatim>\<open>full\<close>, whose generator 100 enqueues
  generator 101 before it returns its promise. The pass run by the inner \<^verbatim>\<open>enqueue\<close>
  launches task 101, ends with one task running and emits \<^verbatim>\<open>full\<close>. The outer pass then
  pushes the promise of generator 100, ends with two tasks running, one more than the cap,
  and emits \<^verbatim>\<open>full\<close> again: the listener is called twice for one passage of the running
  count to the cap, the second time by a pass that ends with a running count other than
  the cap. With a generator 100 that returns at once the listener is called once.
\<close>

theorem reentrant_enqueue_emits_full_twice:
  "map_option emitted
       (execR enqueuing_generator 20 [CallOn EvFull 3, CallEnqueue 100] (new_PromisePool (Some cap1)))
     = Some [EvStart, EvFull, EvFull] \<and>
   map_option calls
       (execR enqueuing_generator 20 [CallOn EvFull 3, CallEnqueue 100] (new_PromisePool (Some cap1)))
     = Some [(EvFull, 3), (EvFull, 3)] \<and>
   map_option running
       (execR enqueuing_generator 20 [CallOn EvFull 3, CallEnqueue 100] (new_PromisePool (Some cap1)))
     = Some [101, 100] \<and>
   map_option pool_size
       (execR enqueuing_generator 20 [CallOn EvFull 3, CallEnqueue 100] (new_PromisePool (Some cap1)))
     = Some (Num 1) \<and>
   map_option calls
       (execR returning 20 [CallOn EvFull 3, CallEnqueue 100] (new_PromisePool (Some cap1)))
     = Some [(EvFull, 3)]"
  by code_simp






end
